theory Spec2Isabelle
  imports Complex_Main "HOL-Library.AList" "HOL-Library.Sublist"
begin

section \<open>Path classifier\<close>

text \<open>
  \<^verbatim>\<open>self.dds_re = re.compile(".*/(\d+)[-_](\d+)[-_]((?!ZL)\D*)(\d+).dds")\<close>

  The pattern is kept as data and run by a backtracking matcher with the priorities of
  Python's \<^verbatim>\<open>re\<close> module: a greedy repetition tries the longest run first and gives
  characters back one at a time. A path is a \<open>string\<close>; its characters are code points
  below 256, among which \<^verbatim>\<open>\d\<close> matches the ten ASCII digits only.
\<close>

definition is_digit :: "char \<Rightarrow> bool" where
  "is_digit c = (c \<in> set ''0123456789'')"

datatype cclass = Digit | NonDigit | Dot | OneOf string

fun in_class :: "cclass \<Rightarrow> char \<Rightarrow> bool" where
  "in_class Digit c = is_digit c"
| "in_class NonDigit c = (\<not> is_digit c)"
| "in_class Dot c = (c \<noteq> CHR 0x0A)"
| "in_class (OneOf cs) c = (c \<in> set cs)"

datatype item =
    Lit char
  | One cclass
  | Star cclass
  | Plus cclass
  | NotAhead string
  | GOpen
  | GClose

primrec first_some :: "('a \<Rightarrow> 'b option) \<Rightarrow> 'a list \<Rightarrow> 'b option" where
  "first_some f [] = None"
| "first_some f (x # xs) = (case f x of Some y \<Rightarrow> Some y | None \<Rightarrow> first_some f xs)"

text \<open>
  \<open>rmatch r s g caps\<close>: match the items \<open>r\<close> against the input left \<open>s\<close>; \<open>g\<close> is the
  input that was left when the group now open was entered, \<open>caps\<close> the text of the groups
  closed so far. The result is the groups of the first match in backtracking order
  (\<^verbatim>\<open>m.groups()\<close>), or \<open>None\<close> (\<^verbatim>\<open>re.match\<close> returning \<^verbatim>\<open>None\<close>). As with
  \<^verbatim>\<open>re.match\<close> the match is anchored at the start of the path only.
\<close>

primrec rmatch :: "item list \<Rightarrow> string \<Rightarrow> string \<Rightarrow> string list \<Rightarrow> string list option" where
  "rmatch [] s g caps = Some caps"
| "rmatch (it # r) s g caps =
     (case it of
        Lit c \<Rightarrow> (case s of [] \<Rightarrow> None | x # xs \<Rightarrow> if x = c then rmatch r xs g caps else None)
      | One cl \<Rightarrow> (case s of [] \<Rightarrow> None | x # xs \<Rightarrow> if in_class cl x then rmatch r xs g caps else None)
      | Star cl \<Rightarrow>
          first_some (\<lambda>n. rmatch r (drop n s) g caps)
            (rev [0 ..< Suc (length (takeWhile (in_class cl) s))])
      | Plus cl \<Rightarrow>
          first_some (\<lambda>n. rmatch r (drop n s) g caps)
            (rev [1 ..< Suc (length (takeWhile (in_class cl) s))])
      | NotAhead w \<Rightarrow> if prefix w s then None else rmatch r s g caps
      | GOpen \<Rightarrow> rmatch r s s caps
      | GClose \<Rightarrow> rmatch r s g (caps @ [take (length g - length s) g]))"

definition dds_re :: "item list" where
  "dds_re =
     [Star Dot, Lit CHR ''/'',
      GOpen, Plus Digit, GClose, One (OneOf ''-_''),
      GOpen, Plus Digit, GClose, One (OneOf ''-_''),
      GOpen, NotAhead ''ZL'', Star NonDigit, GClose,
      GOpen, Plus Digit, GClose,
      One Dot, Lit CHR ''d'', Lit CHR ''d'', Lit CHR ''s'']"

text \<open>The pattern from the first group on, that is \<open>dds_re\<close> without \<^verbatim>\<open>.*/\<close>.\<close>

definition dds_name_re :: "item list" where
  "dds_name_re = drop 2 dds_re"

text \<open>\<^verbatim>\<open>m = self.dds_re.match(path)\<close>, then \<^verbatim>\<open>row, col, maptype, zoom = m.groups()\<close>.\<close>

definition dds_match :: "string \<Rightarrow> (string \<times> string \<times> string \<times> string) option" where
  "dds_match path =
     (case rmatch dds_re path path [] of
        Some [row, col, maptype, zoom] \<Rightarrow> Some (row, col, maptype, zoom)
      | _ \<Rightarrow> None)"


section \<open>Integer conversion and formatting\<close>

text \<open>
  \<^verbatim>\<open>int(row)\<close> on a group of the pattern. The groups converted are matched by
  \<^verbatim>\<open>\d+\<close>, so the argument is a non-empty string of ASCII digits (lemma
  \<open>dds_match_fields\<close> below) and \<^verbatim>\<open>int\<close> returns its decimal value without raising.
\<close>

definition digit_val :: "char \<Rightarrow> int" where
  "digit_val c = of_char c - 48"

definition py_int :: "string \<Rightarrow> int" where
  "py_int ds = foldl (\<lambda>a c. 10 * a + digit_val c) 0 ds"

text \<open>\<^verbatim>\<open>f"{row}"\<close> for an \<^verbatim>\<open>int\<close>: decimal digits, a minus sign when negative.\<close>

definition digit_char :: "nat \<Rightarrow> char" where
  "digit_char d = ''0123456789'' ! (d mod 10)"

fun str_nat :: "nat \<Rightarrow> string" where
  "str_nat n =
     (if n < 10 then [digit_char n]
      else str_nat (n div 10) @ [digit_char (n mod 10)])"

declare str_nat.simps [simp del]

definition py_str :: "int \<Rightarrow> string" where
  "py_str i = (if i < 0 then CHR ''-'' # str_nat (nat (- i)) else str_nat (nat i))"

section \<open>Tile cache\<close>

text \<open>
  Modelled from the spec: \<^verbatim>\<open>getortho.Tile\<close> is imported by the source but not part of
  it. A tile handle has its identity, the reference count \<^verbatim>\<open>refs\<close> that \<^verbatim>\<open>open\<close> and
  \<^verbatim>\<open>release\<close> change, and resources that \<^verbatim>\<open>close()\<close> releases. A new handle is
  unreferenced and open; the constructor is taken to succeed.
\<close>

record tile =
  t_col :: int
  t_row :: int
  t_maptype :: string
  t_zoom :: int
  t_cache_dir :: string
  refs :: int
  is_closed :: bool

definition new_tile :: "int \<Rightarrow> int \<Rightarrow> string \<Rightarrow> int \<Rightarrow> string \<Rightarrow> tile" where
  "new_tile col row map_type zoom cdir =
     \<lparr>t_col = col, t_row = row, t_maptype = map_type, t_zoom = zoom,
      t_cache_dir = cdir, refs = 0, is_closed = False\<rparr>"

definition tile_close :: "tile \<Rightarrow> tile" where
  "tile_close t = t\<lparr>is_closed := True\<rparr>"

text \<open>
  \<^verbatim>\<open>class TileCacher\<close>. Tile objects are shared and mutated through references, so they
  live in a store: \<open>heap\<close> maps a reference to its object and \<open>allocated\<close> counts the
  objects constructed so far (each call of \<^verbatim>\<open>getortho.Tile(...)\<close> takes the next
  reference). \<open>tiles\<close> is the dict \<^verbatim>\<open>self.tiles\<close> as an association list in insertion
  order, which is the order Python iterates a dict in.
\<close>

record tile_cacher =
  maptype_override :: "string option"
  tc_cache_dir :: string
  tiles :: "(string \<times> nat) list"
  heap :: "nat \<Rightarrow> tile"
  allocated :: nat
  hits :: nat
  misses :: nat

definition new_tile_cacher :: "string \<Rightarrow> string option \<Rightarrow> tile_cacher" where
  "new_tile_cacher cdir ov =
     \<lparr>maptype_override = ov, tc_cache_dir = cdir, tiles = [],
      heap = (\<lambda>_. new_tile 0 0 [] 0 []), allocated = 0, hits = 0, misses = 0\<rparr>"

text \<open>
  \<^verbatim>\<open>if self.maptype_override: map_type = self.maptype_override\<close>: \<^verbatim>\<open>None\<close> and the
  empty string are false.
\<close>

definition effective_maptype :: "tile_cacher \<Rightarrow> string \<Rightarrow> string" where
  "effective_maptype s map_type =
     (case maptype_override s of
        None \<Rightarrow> map_type
      | Some ov \<Rightarrow> if ov = [] then map_type else ov)"

text \<open>\<^verbatim>\<open>idx = f"{row}_{col}_{map_type}_{zoom}"\<close>\<close>

definition tile_idx :: "int \<Rightarrow> int \<Rightarrow> string \<Rightarrow> int \<Rightarrow> string" where
  "tile_idx row col map_type zoom =
     py_str row @ ''_'' @ py_str col @ ''_'' @ map_type @ ''_'' @ py_str zoom"

text \<open>
  \<^verbatim>\<open>_get_tile\<close> takes \<^verbatim>\<open>self.tile_lock\<close> twice. The first critical section is the
  lookup \<^verbatim>\<open>tile = self.tiles.get(idx)\<close>; what follows it works on the local variable
  \<^verbatim>\<open>tile\<close>: a miss counts, constructs the tile and stores it under the lock again; a
  handle found with \<^verbatim>\<open>refs <= 0\<close> counts as a hit.
\<close>

definition get_tile_lookup :: "tile_cacher \<Rightarrow> string \<Rightarrow> nat option" where
  "get_tile_lookup s idx = map_of (tiles s) idx"

definition get_tile_finish ::
  "int \<Rightarrow> int \<Rightarrow> string \<Rightarrow> int \<Rightarrow> string \<Rightarrow> nat option \<Rightarrow> tile_cacher \<Rightarrow> nat \<times> tile_cacher" where
  "get_tile_finish row col map_type zoom idx tile s =
     (case tile of
        None \<Rightarrow>
          (let s1 = s\<lparr>misses := misses s + 1\<rparr>;
               t = allocated s1;
               s2 = s1\<lparr>heap := (heap s1)(t := new_tile col row map_type zoom (tc_cache_dir s1)),
                        allocated := Suc t\<rparr>
           in (t, s2\<lparr>tiles := AList.update idx t (tiles s2)\<rparr>))
      | Some t \<Rightarrow>
          if refs (heap s t) \<le> 0 then (t, s\<lparr>hits := hits s + 1\<rparr>) else (t, s))"

text \<open>A call of \<^verbatim>\<open>_get_tile\<close> that no other thread interleaves with.\<close>

definition get_tile :: "int \<Rightarrow> int \<Rightarrow> string \<Rightarrow> int \<Rightarrow> tile_cacher \<Rightarrow> nat \<times> tile_cacher" where
  "get_tile row col map_type zoom s =
     (let mt = effective_maptype s map_type;
          idx = tile_idx row col mt zoom
      in get_tile_finish row col mt zoom idx (get_tile_lookup s idx) s)"

subsection \<open>The reclamation loop\<close>

definition memlimit :: nat where
  "memlimit = 2 ^ 30 * 2"

datatype py_error = AttributeError | KeyError

text \<open>
  The body of \<^verbatim>\<open>for i in list(self.tiles.keys())[:20]\<close>, run under the lock.
  \<^verbatim>\<open>self.tiles.get(i)\<close> of a key that is gone would give \<^verbatim>\<open>None\<close>, and
  \<^verbatim>\<open>t.refs\<close> would then raise.
\<close>

fun clean_keys :: "string list \<Rightarrow> tile_cacher \<Rightarrow> py_error + tile_cacher" where
  "clean_keys [] s = Inr s"
| "clean_keys (i # ks) s =
     (case map_of (tiles s) i of
        None \<Rightarrow> Inl AttributeError
      | Some t \<Rightarrow>
          if refs (heap s t) \<le> 0
          then clean_keys ks
                 (s\<lparr>tiles := AList.delete i (tiles s),
                    heap := (heap s)(t := tile_close (heap s t))\<rparr>)
          else clean_keys ks s)"

definition clean_batch :: "tile_cacher \<Rightarrow> py_error + tile_cacher" where
  "clean_batch s = clean_keys (take 20 (map fst (tiles s))) s"

text \<open>
  The two statements of that body that touch a handle, each on its own: the test
  \<^verbatim>\<open>t = self.tiles.get(i)\<close>, \<^verbatim>\<open>if t.refs <= 0\<close>, and the removal
  \<^verbatim>\<open>t = self.tiles.pop(i)\<close>, \<^verbatim>\<open>t.close()\<close>, which raises \<^verbatim>\<open>KeyError\<close> when the
  key is gone.
\<close>

definition clean_check :: "string \<Rightarrow> tile_cacher \<Rightarrow> py_error + bool" where
  "clean_check i s =
     (case map_of (tiles s) i of
        None \<Rightarrow> Inl AttributeError
      | Some t \<Rightarrow> Inr (refs (heap s t) \<le> 0))"

definition clean_pop :: "string \<Rightarrow> tile_cacher \<Rightarrow> py_error + tile_cacher" where
  "clean_pop i s =
     (case map_of (tiles s) i of
        None \<Rightarrow> Inl KeyError
      | Some t \<Rightarrow>
          Inr (s\<lparr>tiles := AList.delete i (tiles s),
                 heap := (heap s)(t := tile_close (heap s t))\<rparr>))"

text \<open>
  \<^verbatim>\<open>while len(self.tiles) >= 90 and cur_mem > memlimit\<close>. The resident memory is read
  from the operating system: \<open>cur_mem\<close> is the sample in hand and \<open>samples\<close> the values
  the later calls of \<^verbatim>\<open>process.memory_info().rss\<close> return. Nothing bounds the number of
  rounds, so the loop is run for as long as samples are supplied: \<open>None\<close> is a loop
  still running when they are used up.
\<close>

fun clean_loop :: "nat list \<Rightarrow> nat \<Rightarrow> tile_cacher \<Rightarrow> (py_error + tile_cacher) option" where
  "clean_loop samples cur_mem s =
     (if length (tiles s) \<ge> 90 \<and> cur_mem > memlimit then
        (case clean_batch s of
           Inl e \<Rightarrow> Some (Inl e)
         | Inr s' \<Rightarrow>
             (case samples of
                [] \<Rightarrow> None
              | m # samples' \<Rightarrow> clean_loop samples' m s'))
      else Some (Inr s))"

declare clean_loop.simps [simp del]

text \<open>One round of \<^verbatim>\<open>while True\<close> in \<^verbatim>\<open>clean\<close>, up to the \<^verbatim>\<open>time.sleep(15)\<close>.\<close>

definition clean_cycle :: "nat list \<Rightarrow> tile_cacher \<Rightarrow> (py_error + tile_cacher) option" where
  "clean_cycle samples s =
     (case samples of
        [] \<Rightarrow> None
      | cur_mem # rest \<Rightarrow> clean_loop rest cur_mem s)"

text \<open>
  An example state for the reclamation loop: ninety tiles stored in the order of their
  rows, of which the first (the oldest) is held open once and the others are idle.
\<close>

definition ninety_tiles :: tile_cacher where
  "ninety_tiles =
     \<lparr>maptype_override = None, tc_cache_dir = ''.cache'',
      tiles = map (\<lambda>n. (tile_idx (int n) 0 ''BI'' 16, n)) [0 ..< 90],
      heap = (\<lambda>n. (new_tile 0 (int n) ''BI'' 16 ''.cache'')\<lparr>refs := if n = 0 then 1 else 0\<rparr>),
      allocated = 90, hits = 0, misses = 90\<rparr>"

subsection \<open>Concurrent callers of \<^verbatim>\<open>_get_tile\<close>\<close>

text \<open>
  A thread inside \<^verbatim>\<open>_get_tile\<close> is before the first critical section, between the
  two with its local variable \<^verbatim>\<open>tile\<close>, or has returned a handle. A step runs one
  thread up to the point where it next lets go of \<^verbatim>\<open>tile_lock\<close>; a schedule is the
  list of the threads that step, in order.
\<close>

datatype get_tile_pc = Ready | Looked "nat option" | Returned nat

definition get_tile_step ::
  "int \<Rightarrow> int \<Rightarrow> string \<Rightarrow> int \<Rightarrow> get_tile_pc \<Rightarrow> tile_cacher \<Rightarrow> get_tile_pc \<times> tile_cacher" where
  "get_tile_step row col map_type zoom pc s =
     (let mt = effective_maptype s map_type;
          idx = tile_idx row col mt zoom
      in case pc of
           Ready \<Rightarrow> (Looked (get_tile_lookup s idx), s)
         | Looked tile \<Rightarrow>
             (case get_tile_finish row col mt zoom idx tile s of (t, s') \<Rightarrow> (Returned t, s'))
         | Returned t \<Rightarrow> (Returned t, s))"

fun run_threads ::
  "int \<Rightarrow> int \<Rightarrow> string \<Rightarrow> int \<Rightarrow> nat list \<Rightarrow> get_tile_pc list \<times> tile_cacher
     \<Rightarrow> get_tile_pc list \<times> tile_cacher" where
  "run_threads row col map_type zoom [] st = st"
| "run_threads row col map_type zoom (i # sched) (pcs, s) =
     (if i < length pcs then
        (case get_tile_step row col map_type zoom (pcs ! i) s of
           (pc', s') \<Rightarrow> run_threads row col map_type zoom sched (pcs[i := pc'], s'))
      else run_threads row col map_type zoom sched (pcs, s))"

section \<open>Paths of the backing directory\<close>

text \<open>
  \<^verbatim>\<open>os.path.join\<close>, \<^verbatim>\<open>os.path.normpath\<close> and \<^verbatim>\<open>os.path.abspath\<close> of Python's
  \<^verbatim>\<open>posixpath\<close>, which \<^verbatim>\<open>_full_path\<close> calls (the FUSE mount is the POSIX branch of
  \<^verbatim>\<open>main\<close>). \<open>cwd\<close> is what \<^verbatim>\<open>os.getcwd()\<close> returns.
\<close>

definition posix_join :: "string \<Rightarrow> string \<Rightarrow> string" where
  "posix_join a b =
     (if prefix ''/'' b then b
      else if a = [] \<or> last a = CHR ''/'' then a @ b
      else a @ ''/'' @ b)"

text \<open>\<^verbatim>\<open>path.split('/')\<close>\<close>

fun split_slash :: "string \<Rightarrow> string list" where
  "split_slash [] = [[]]"
| "split_slash (c # cs) =
     (if c = CHR ''/'' then [] # split_slash cs
      else (case split_slash cs of
              [] \<Rightarrow> [[c]]
            | w # ws \<Rightarrow> (c # w) # ws))"

text \<open>\<^verbatim>\<open>'/'.join(comps)\<close>\<close>

fun join_slash :: "string list \<Rightarrow> string" where
  "join_slash [] = []"
| "join_slash [c] = c"
| "join_slash (c # d # cs) = c @ ''/'' @ join_slash (d # cs)"

definition normpath_step :: "bool \<Rightarrow> string list \<Rightarrow> string \<Rightarrow> string list" where
  "normpath_step initial_slashes new_comps c =
     (if c = [] \<or> c = ''.'' then new_comps
      else if c \<noteq> ''..'' \<or> (\<not> initial_slashes \<and> new_comps = [])
                \<or> (new_comps \<noteq> [] \<and> last new_comps = ''..'')
      then new_comps @ [c]
      else if new_comps \<noteq> [] then butlast new_comps
      else new_comps)"

definition normpath :: "string \<Rightarrow> string" where
  "normpath path =
     (if path = [] then ''.''
      else
        (let initial_slashes =
               (if prefix ''/'' path
                then (if prefix ''//'' path \<and> \<not> prefix ''///'' path then 2 else 1)
                else (0 :: nat));
             comps = foldl (normpath_step (initial_slashes \<noteq> 0)) [] (split_slash path);
             p = replicate initial_slashes CHR ''/'' @ join_slash comps
         in if p = [] then ''.'' else p))"

definition abspath :: "string \<Rightarrow> string \<Rightarrow> string" where
  "abspath cwd path = normpath (if prefix ''/'' path then path else posix_join cwd path)"

text \<open>
  \<^verbatim>\<open>def _full_path(self, partial)\<close>: one leading slash is dropped, the rest is joined
  to \<^verbatim>\<open>self.root\<close> and made absolute.
\<close>

definition full_path :: "string \<Rightarrow> string \<Rightarrow> string \<Rightarrow> string" where
  "full_path cwd rootdir partial =
     abspath cwd (posix_join rootdir (if prefix ''/'' partial then drop 1 partial else partial))"

text \<open>
  A path lies within a directory when the directory's components are the first
  components of the path.
\<close>

definition components :: "string \<Rightarrow> string list" where
  "components p = filter (\<lambda>c. c \<noteq> []) (split_slash p)"

definition path_within :: "string \<Rightarrow> string \<Rightarrow> bool" where
  "path_within dir p = prefix (components dir) (components p)"

text \<open>
  \<^verbatim>\<open>os.path.relpath(path, start)\<close> of \<^verbatim>\<open>posixpath\<close>, for a non-empty \<open>path\<close>
  (\<^verbatim>\<open>readlink\<close> calls it on a string that starts with a slash).
\<close>

definition relpath :: "string \<Rightarrow> string \<Rightarrow> string \<Rightarrow> string" where
  "relpath cwd path start =
     (let start_list = components (abspath cwd start);
          path_list = components (abspath cwd path);
          i = length (longest_common_prefix start_list path_list);
          rel_list = replicate (length start_list - i) ''..'' @ drop i path_list
      in if rel_list = [] then ''.'' else join_slash rel_list)"

section \<open>Filesystem operations\<close>

text \<open>
  The host filesystem is outside the program: the operations take its primitives as a
  record of functions over a host state \<open>'h\<close>. A primitive that raises \<^verbatim>\<open>OSError\<close>
  returns \<open>Inl\<close> of the error number, which the FUSE layer hands to the caller.
  \<open>read_dds_bytes\<close> is the byte-range read of the external tile provider,
  \<open>os_open_mode\<close> is \<^verbatim>\<open>os.open\<close> with its third argument, \<open>fuse_get_context\<close> gives
  the uid, gid and pid of the calling process, and \<open>inherited_flush\<close> is the \<^verbatim>\<open>flush\<close>
  that the class inherits from \<^verbatim>\<open>Operations\<close> of the FUSE library.
\<close>

type_synonym errno = nat

definition ENOENT :: errno where
  "ENOENT = 2"

definition EACCES :: errno where
  "EACCES = 13"

record stat_attrs =
  st_atime :: real
  st_ctime :: real
  st_gid :: nat
  st_uid :: nat
  st_mode :: nat
  st_mtime :: real
  st_nlink :: nat
  st_size :: nat
  st_blksize :: "nat option"

text \<open>The ten figures \<^verbatim>\<open>statfs\<close> reports.\<close>

record statvfs =
  f_bavail :: nat
  f_bfree :: nat
  f_blocks :: nat
  f_bsize :: nat
  f_favail :: nat
  f_ffree :: nat
  f_files :: nat
  f_flag :: nat
  f_frsize :: nat
  f_namemax :: nat

record 'h host_os =
  getcwd :: string
  os_lstat :: "string \<Rightarrow> 'h \<Rightarrow> errno + stat_attrs"
  os_open :: "string \<Rightarrow> int \<Rightarrow> 'h \<Rightarrow> errno + (int \<times> 'h)"
  os_close :: "int \<Rightarrow> 'h \<Rightarrow> errno + 'h"
  os_lseek :: "int \<Rightarrow> int \<Rightarrow> 'h \<Rightarrow> errno + 'h"
  os_read :: "int \<Rightarrow> int \<Rightarrow> 'h \<Rightarrow> errno + (nat list \<times> 'h)"
  os_write :: "int \<Rightarrow> nat list \<Rightarrow> 'h \<Rightarrow> errno + (int \<times> 'h)"
  os_fsync :: "int \<Rightarrow> 'h \<Rightarrow> errno + 'h"
  open_truncate :: "string \<Rightarrow> int \<Rightarrow> 'h \<Rightarrow> errno + 'h"
  read_dds_bytes :: "tile \<Rightarrow> int \<Rightarrow> int \<Rightarrow> nat list"
  os_access :: "string \<Rightarrow> int \<Rightarrow> 'h \<Rightarrow> bool"
  os_chmod :: "string \<Rightarrow> int \<Rightarrow> 'h \<Rightarrow> errno + 'h"
  os_chown :: "string \<Rightarrow> int \<Rightarrow> int \<Rightarrow> 'h \<Rightarrow> errno + 'h"
  os_isdir :: "string \<Rightarrow> 'h \<Rightarrow> bool"
  os_listdir :: "string \<Rightarrow> 'h \<Rightarrow> errno + string list"
  os_readlink :: "string \<Rightarrow> 'h \<Rightarrow> errno + string"
  os_mknod :: "string \<Rightarrow> int \<Rightarrow> int \<Rightarrow> 'h \<Rightarrow> errno + 'h"
  os_rmdir :: "string \<Rightarrow> 'h \<Rightarrow> errno + 'h"
  os_mkdir :: "string \<Rightarrow> int \<Rightarrow> 'h \<Rightarrow> errno + 'h"
  platform_system :: string
  os_statvfs :: "string \<Rightarrow> 'h \<Rightarrow> errno + statvfs"
  os_unlink :: "string \<Rightarrow> 'h \<Rightarrow> errno + 'h"
  os_symlink :: "string \<Rightarrow> string \<Rightarrow> 'h \<Rightarrow> errno + 'h"
  os_rename :: "string \<Rightarrow> string \<Rightarrow> 'h \<Rightarrow> errno + 'h"
  os_link :: "string \<Rightarrow> string \<Rightarrow> 'h \<Rightarrow> errno + 'h"
  os_utime :: "string \<Rightarrow> (real \<times> real) option \<Rightarrow> 'h \<Rightarrow> errno + 'h"
  os_open_mode :: "string \<Rightarrow> int \<Rightarrow> int \<Rightarrow> 'h \<Rightarrow> errno + (int \<times> 'h)"
  fuse_get_context :: "'h \<Rightarrow> int \<times> int \<times> int"
  inherited_flush :: "string \<Rightarrow> int \<Rightarrow> 'h \<Rightarrow> errno + (int \<times> 'h)"

text \<open>\<^verbatim>\<open>class AutoOrtho(Operations)\<close>\<close>

record autoortho =
  ao_root :: string
  ao_cache_dir :: string
  ao_maptype_override :: "string option"
  tc :: tile_cacher
  default_uid :: nat
  default_gid :: nat

definition new_autoortho :: "string \<Rightarrow> string \<Rightarrow> string option \<Rightarrow> autoortho" where
  "new_autoortho rootdir cdir ov =
     \<lparr>ao_root = rootdir, ao_cache_dir = cdir, ao_maptype_override = ov,
      tc = new_tile_cacher cdir ov, default_uid = 0, default_gid = 0\<rparr>"

text \<open>
  \<^verbatim>\<open>getattr\<close>. The \<^verbatim>\<open>os.path.exists\<close> of its first lines is only logged. The
  dict built from \<^verbatim>\<open>os.lstat\<close> has no \<^verbatim>\<open>st_blksize\<close>.
\<close>

definition ao_getattr :: "'h host_os \<Rightarrow> autoortho \<Rightarrow> string \<Rightarrow> 'h \<Rightarrow> errno + stat_attrs" where
  "ao_getattr os ao path h =
     (case dds_match path of
        Some (row, col, maptype, zoom) \<Rightarrow>
          Inr \<lparr>st_atime = 1649857250.382081,
               st_ctime = 1649857251.726115,
               st_gid = default_gid ao,
               st_uid = default_uid ao,
               st_mode = 33204,
               st_mtime = 1649857251.726115,
               st_nlink = 1,
               st_size = 22369744,
               st_blksize = Some 32768\<rparr>
      | None \<Rightarrow>
          (case os_lstat os (full_path (getcwd os) (ao_root ao) path) h of
             Inl e \<Rightarrow> Inl e
           | Inr st \<Rightarrow> Inr (st\<lparr>st_blksize := None\<rparr>)))"

text \<open>\<^verbatim>\<open>t.refs += 1\<close> and \<^verbatim>\<open>t.refs -= 1\<close> on the handle \<^verbatim>\<open>_get_tile\<close> returned.\<close>

definition add_refs :: "nat \<Rightarrow> int \<Rightarrow> tile_cacher \<Rightarrow> tile_cacher" where
  "add_refs t d s = s\<lparr>heap := (heap s)(t := (heap s t)\<lparr>refs := refs (heap s t) + d\<rparr>)\<rparr>"

definition ao_open ::
  "'h host_os \<Rightarrow> string \<Rightarrow> int \<Rightarrow> autoortho \<times> 'h \<Rightarrow> errno + (int \<times> autoortho \<times> 'h)" where
  "ao_open os path flags st =
     (case st of (ao, h) \<Rightarrow>
        (case dds_match path of
           Some (row, col, maptype, zoom) \<Rightarrow>
             (case get_tile (py_int row) (py_int col) maptype (py_int zoom) (tc ao) of
                (t, s') \<Rightarrow> Inr (0, ao\<lparr>tc := add_refs t 1 s'\<rparr>, h))
         | None \<Rightarrow>
             (case os_open os (full_path (getcwd os) (ao_root ao) path) flags h of
                Inl e \<Rightarrow> Inl e
              | Inr (fd, h') \<Rightarrow> Inr (fd, ao, h'))))"

definition ao_read ::
  "'h host_os \<Rightarrow> string \<Rightarrow> int \<Rightarrow> int \<Rightarrow> int \<Rightarrow> autoortho \<times> 'h
     \<Rightarrow> errno + (nat list \<times> autoortho \<times> 'h)" where
  "ao_read os path len offset fh st =
     (case st of (ao, h) \<Rightarrow>
        (case dds_match path of
           Some (row, col, maptype, zoom) \<Rightarrow>
             (case get_tile (py_int row) (py_int col) maptype (py_int zoom) (tc ao) of
                (t, s') \<Rightarrow> Inr (read_dds_bytes os (heap s' t) offset len, ao\<lparr>tc := s'\<rparr>, h))
         | None \<Rightarrow>
             (case os_lseek os fh offset h of
                Inl e \<Rightarrow> Inl e
              | Inr h1 \<Rightarrow>
                  (case os_read os fh len h1 of
                     Inl e \<Rightarrow> Inl e
                   | Inr (data, h2) \<Rightarrow> Inr (data, ao, h2)))))"

definition ao_release ::
  "'h host_os \<Rightarrow> string \<Rightarrow> int \<Rightarrow> autoortho \<times> 'h \<Rightarrow> errno + (int \<times> autoortho \<times> 'h)" where
  "ao_release os path fh st =
     (case st of (ao, h) \<Rightarrow>
        (case dds_match path of
           Some (row, col, maptype, zoom) \<Rightarrow>
             (case get_tile (py_int row) (py_int col) maptype (py_int zoom) (tc ao) of
                (t, s') \<Rightarrow> Inr (0, ao\<lparr>tc := add_refs t (- 1) s'\<rparr>, h))
         | None \<Rightarrow>
             (case os_close os fh h of
                Inl e \<Rightarrow> Inl e
              | Inr h' \<Rightarrow> Inr (0, ao, h'))))"

text \<open>
  \<^verbatim>\<open>truncate\<close>, \<^verbatim>\<open>_write\<close> and \<^verbatim>\<open>_flush\<close>. \<^verbatim>\<open>truncate\<close> opens the real file with
  mode \<^verbatim>\<open>'r+'\<close> and truncates it (\<open>open_truncate\<close>); a method that returns \<^verbatim>\<open>None\<close>
  reports 0.
\<close>

definition ao_truncate ::
  "'h host_os \<Rightarrow> string \<Rightarrow> int \<Rightarrow> autoortho \<times> 'h \<Rightarrow> errno + (int \<times> autoortho \<times> 'h)" where
  "ao_truncate os path len st =
     (case st of (ao, h) \<Rightarrow>
        (case open_truncate os (full_path (getcwd os) (ao_root ao) path) len h of
           Inl e \<Rightarrow> Inl e
         | Inr h' \<Rightarrow> Inr (0, ao, h')))"

definition ao_write ::
  "'h host_os \<Rightarrow> string \<Rightarrow> nat list \<Rightarrow> int \<Rightarrow> int \<Rightarrow> autoortho \<times> 'h
     \<Rightarrow> errno + (int \<times> autoortho \<times> 'h)" where
  "ao_write os path buf offset fh st =
     (case st of (ao, h) \<Rightarrow>
        (case os_lseek os fh offset h of
           Inl e \<Rightarrow> Inl e
         | Inr h1 \<Rightarrow>
             (case os_write os fh buf h1 of
                Inl e \<Rightarrow> Inl e
              | Inr (n, h2) \<Rightarrow> Inr (n, ao, h2))))"

definition ao_flush ::
  "'h host_os \<Rightarrow> string \<Rightarrow> int \<Rightarrow> autoortho \<times> 'h \<Rightarrow> errno + (int \<times> autoortho \<times> 'h)" where
  "ao_flush os path fh st =
     (case st of (ao, h) \<Rightarrow>
        (case dds_match path of
           Some (row, col, maptype, zoom) \<Rightarrow> Inr (0, ao, h)
         | None \<Rightarrow>
             (case os_fsync os fh h of
                Inl e \<Rightarrow> Inl e
              | Inr h' \<Rightarrow> Inr (0, ao, h'))))"

text \<open>
  The remaining methods. Each resolves its path with \<^verbatim>\<open>_full_path\<close> and calls the
  primitive of \<^verbatim>\<open>os\<close>; none of them consults the classifier. \<^verbatim>\<open>_access\<close> raises
  \<^verbatim>\<open>EACCES\<close> when \<^verbatim>\<open>os.access\<close> is false.
\<close>

definition ao_access ::
  "'h host_os \<Rightarrow> string \<Rightarrow> int \<Rightarrow> autoortho \<times> 'h \<Rightarrow> errno + (int \<times> autoortho \<times> 'h)" where
  "ao_access os path mode st =
     (case st of (ao, h) \<Rightarrow>
        if os_access os (full_path (getcwd os) (ao_root ao) path) mode h
        then Inr (0, ao, h) else Inl EACCES)"

definition ao_chmod ::
  "'h host_os \<Rightarrow> string \<Rightarrow> int \<Rightarrow> autoortho \<times> 'h \<Rightarrow> errno + (int \<times> autoortho \<times> 'h)" where
  "ao_chmod os path mode st =
     (case st of (ao, h) \<Rightarrow>
        (case os_chmod os (full_path (getcwd os) (ao_root ao) path) mode h of
           Inl e \<Rightarrow> Inl e
         | Inr h' \<Rightarrow> Inr (0, ao, h')))"

definition ao_chown ::
  "'h host_os \<Rightarrow> string \<Rightarrow> int \<Rightarrow> int \<Rightarrow> autoortho \<times> 'h \<Rightarrow> errno + (int \<times> autoortho \<times> 'h)" where
  "ao_chown os path uid gid st =
     (case st of (ao, h) \<Rightarrow>
        (case os_chown os (full_path (getcwd os) (ao_root ao) path) uid gid h of
           Inl e \<Rightarrow> Inl e
         | Inr h' \<Rightarrow> Inr (0, ao, h')))"

text \<open>
  \<^verbatim>\<open>readdir\<close> yields \<^verbatim>\<open>.\<close> and \<^verbatim>\<open>..\<close> and then, when the re-rooted path is a
  directory, what \<^verbatim>\<open>os.listdir\<close> gives. \<^verbatim>\<open>readlink\<close> makes an absolute link target
  relative to \<^verbatim>\<open>self.root\<close>.
\<close>

definition ao_readdir ::
  "'h host_os \<Rightarrow> string \<Rightarrow> int \<Rightarrow> autoortho \<times> 'h \<Rightarrow> errno + (string list \<times> autoortho \<times> 'h)" where
  "ao_readdir os path fh st =
     (case st of (ao, h) \<Rightarrow>
        if os_isdir os (full_path (getcwd os) (ao_root ao) path) h then
          (case os_listdir os (full_path (getcwd os) (ao_root ao) path) h of
             Inl e \<Rightarrow> Inl e
           | Inr names \<Rightarrow> Inr ([''.'', ''..''] @ names, ao, h))
        else Inr ([''.'', ''..''], ao, h))"

definition ao_readlink ::
  "'h host_os \<Rightarrow> string \<Rightarrow> autoortho \<times> 'h \<Rightarrow> errno + (string \<times> autoortho \<times> 'h)" where
  "ao_readlink os path st =
     (case st of (ao, h) \<Rightarrow>
        (case os_readlink os (full_path (getcwd os) (ao_root ao) path) h of
           Inl e \<Rightarrow> Inl e
         | Inr pathname \<Rightarrow>
             if prefix ''/'' pathname
             then Inr (relpath (getcwd os) pathname (ao_root ao), ao, h)
             else Inr (pathname, ao, h)))"

definition ao_mknod ::
  "'h host_os \<Rightarrow> string \<Rightarrow> int \<Rightarrow> int \<Rightarrow> autoortho \<times> 'h \<Rightarrow> errno + (int \<times> autoortho \<times> 'h)" where
  "ao_mknod os path mode dev st =
     (case st of (ao, h) \<Rightarrow>
        (case os_mknod os (full_path (getcwd os) (ao_root ao) path) mode dev h of
           Inl e \<Rightarrow> Inl e
         | Inr h' \<Rightarrow> Inr (0, ao, h')))"

definition ao_rmdir ::
  "'h host_os \<Rightarrow> string \<Rightarrow> autoortho \<times> 'h \<Rightarrow> errno + (int \<times> autoortho \<times> 'h)" where
  "ao_rmdir os path st =
     (case st of (ao, h) \<Rightarrow>
        (case os_rmdir os (full_path (getcwd os) (ao_root ao) path) h of
           Inl e \<Rightarrow> Inl e
         | Inr h' \<Rightarrow> Inr (0, ao, h')))"

definition ao_mkdir ::
  "'h host_os \<Rightarrow> string \<Rightarrow> int \<Rightarrow> autoortho \<times> 'h \<Rightarrow> errno + (int \<times> autoortho \<times> 'h)" where
  "ao_mkdir os path mode st =
     (case st of (ao, h) \<Rightarrow>
        (case os_mkdir os (full_path (getcwd os) (ao_root ao) path) mode h of
           Inl e \<Rightarrow> Inl e
         | Inr h' \<Rightarrow> Inr (0, ao, h')))"

text \<open>
  \<^verbatim>\<open>statfs\<close> answers with fixed figures on Windows and with \<^verbatim>\<open>os.statvfs\<close> of the
  re-rooted path on Linux; on any other platform it returns \<^verbatim>\<open>None\<close>.
\<close>

definition windows_statfs :: statvfs where
  "windows_statfs =
     \<lparr>f_bavail = 1024, f_bfree = 1024, f_blocks = 1204, f_bsize = 4096, f_favail = 1024,
      f_ffree = 1024, f_files = 1024, f_flag = 0, f_frsize = 1024, f_namemax = 1024\<rparr>"

definition ao_statfs ::
  "'h host_os \<Rightarrow> string \<Rightarrow> autoortho \<times> 'h \<Rightarrow> errno + (statvfs option \<times> autoortho \<times> 'h)" where
  "ao_statfs os path st =
     (case st of (ao, h) \<Rightarrow>
        if platform_system os = ''Windows'' then Inr (Some windows_statfs, ao, h)
        else if platform_system os = ''Linux'' then
          (case os_statvfs os (full_path (getcwd os) (ao_root ao) path) h of
             Inl e \<Rightarrow> Inl e
           | Inr stv \<Rightarrow> Inr (Some stv, ao, h))
        else Inr (None, ao, h))"

definition ao_unlink ::
  "'h host_os \<Rightarrow> string \<Rightarrow> autoortho \<times> 'h \<Rightarrow> errno + (int \<times> autoortho \<times> 'h)" where
  "ao_unlink os path st =
     (case st of (ao, h) \<Rightarrow>
        (case os_unlink os (full_path (getcwd os) (ao_root ao) path) h of
           Inl e \<Rightarrow> Inl e
         | Inr h' \<Rightarrow> Inr (0, ao, h')))"

text \<open>
  \<^verbatim>\<open>symlink(name, target)\<close> is \<^verbatim>\<open>os.symlink(target, self._full_path(name))\<close>: the
  target is passed as it is. \<^verbatim>\<open>link(target, name)\<close> is
  \<^verbatim>\<open>os.link(self._full_path(name), self._full_path(target))\<close>.
\<close>

definition ao_symlink ::
  "'h host_os \<Rightarrow> string \<Rightarrow> string \<Rightarrow> autoortho \<times> 'h \<Rightarrow> errno + (int \<times> autoortho \<times> 'h)" where
  "ao_symlink os name target st =
     (case st of (ao, h) \<Rightarrow>
        (case os_symlink os target (full_path (getcwd os) (ao_root ao) name) h of
           Inl e \<Rightarrow> Inl e
         | Inr h' \<Rightarrow> Inr (0, ao, h')))"

definition ao_rename ::
  "'h host_os \<Rightarrow> string \<Rightarrow> string \<Rightarrow> autoortho \<times> 'h \<Rightarrow> errno + (int \<times> autoortho \<times> 'h)" where
  "ao_rename os old new st =
     (case st of (ao, h) \<Rightarrow>
        (case os_rename os (full_path (getcwd os) (ao_root ao) old)
                (full_path (getcwd os) (ao_root ao) new) h of
           Inl e \<Rightarrow> Inl e
         | Inr h' \<Rightarrow> Inr (0, ao, h')))"

definition ao_link ::
  "'h host_os \<Rightarrow> string \<Rightarrow> string \<Rightarrow> autoortho \<times> 'h \<Rightarrow> errno + (int \<times> autoortho \<times> 'h)" where
  "ao_link os target name st =
     (case st of (ao, h) \<Rightarrow>
        (case os_link os (full_path (getcwd os) (ao_root ao) name)
                (full_path (getcwd os) (ao_root ao) target) h of
           Inl e \<Rightarrow> Inl e
         | Inr h' \<Rightarrow> Inr (0, ao, h')))"

definition ao_utimens ::
  "'h host_os \<Rightarrow> string \<Rightarrow> (real \<times> real) option \<Rightarrow> autoortho \<times> 'h
     \<Rightarrow> errno + (int \<times> autoortho \<times> 'h)" where
  "ao_utimens os path ts st =
     (case st of (ao, h) \<Rightarrow>
        (case os_utime os (full_path (getcwd os) (ao_root ao) path) ts h of
           Inl e \<Rightarrow> Inl e
         | Inr h' \<Rightarrow> Inr (0, ao, h')))"

text \<open>
  \<^verbatim>\<open>_create\<close> opens the re-rooted path with \<^verbatim>\<open>os.O_WRONLY | os.O_CREAT\<close> (1 and 64
  on Linux) and hands the file to the calling user.
\<close>

definition O_WRONLY_CREAT :: int where
  "O_WRONLY_CREAT = 65"

definition ao_create ::
  "'h host_os \<Rightarrow> string \<Rightarrow> int \<Rightarrow> autoortho \<times> 'h \<Rightarrow> errno + (int \<times> autoortho \<times> 'h)" where
  "ao_create os path mode st =
     (case st of (ao, h) \<Rightarrow>
        (case fuse_get_context os h of
           (uid, gid, pid) \<Rightarrow>
             (case os_open_mode os (full_path (getcwd os) (ao_root ao) path) O_WRONLY_CREAT mode h of
                Inl e \<Rightarrow> Inl e
              | Inr (fd, h1) \<Rightarrow>
                  (case os_chown os (full_path (getcwd os) (ao_root ao) path) uid gid h1 of
                     Inl e \<Rightarrow> Inl e
                   | Inr h2 \<Rightarrow> Inr (fd, ao, h2)))))"

text \<open>
  \<^verbatim>\<open>_releasedir\<close> and \<^verbatim>\<open>close\<close> return 0; \<^verbatim>\<open>fsync\<close> is
  \<^verbatim>\<open>return self.flush(path, fh)\<close>, the inherited method.
\<close>

definition ao_releasedir ::
  "'h host_os \<Rightarrow> string \<Rightarrow> int \<Rightarrow> autoortho \<times> 'h \<Rightarrow> errno + (int \<times> autoortho \<times> 'h)" where
  "ao_releasedir os path fh st = (case st of (ao, h) \<Rightarrow> Inr (0, ao, h))"

definition ao_close ::
  "'h host_os \<Rightarrow> string \<Rightarrow> int \<Rightarrow> autoortho \<times> 'h \<Rightarrow> errno + (int \<times> autoortho \<times> 'h)" where
  "ao_close os path fh st = (case st of (ao, h) \<Rightarrow> Inr (0, ao, h))"

definition ao_fsync ::
  "'h host_os \<Rightarrow> string \<Rightarrow> int \<Rightarrow> int \<Rightarrow> autoortho \<times> 'h \<Rightarrow> errno + (int \<times> autoortho \<times> 'h)" where
  "ao_fsync os path fdatasync fh st =
     (case st of (ao, h) \<Rightarrow>
        (case inherited_flush os path fh h of
           Inl e \<Rightarrow> Inl e
         | Inr (r, h') \<Rightarrow> Inr (r, ao, h')))"

subsection \<open>Sequences of open and release calls\<close>

datatype fs_call = OpenCall string int | ReleaseCall string int

definition do_call :: "'h host_os \<Rightarrow> fs_call \<Rightarrow> autoortho \<times> 'h \<Rightarrow> errno + (autoortho \<times> 'h)" where
  "do_call os c st =
     (case c of
        OpenCall path flags \<Rightarrow>
          (case ao_open os path flags st of Inl e \<Rightarrow> Inl e | Inr (r, st') \<Rightarrow> Inr st')
      | ReleaseCall path fh \<Rightarrow>
          (case ao_release os path fh st of Inl e \<Rightarrow> Inl e | Inr (r, st') \<Rightarrow> Inr st'))"

text \<open>The states a sequence of calls goes through; an error ends it.\<close>

fun run_calls :: "'h host_os \<Rightarrow> fs_call list \<Rightarrow> autoortho \<times> 'h \<Rightarrow> (autoortho \<times> 'h) list" where
  "run_calls os [] st = [st]"
| "run_calls os (c # cs) st =
     st # (case do_call os c st of Inl e \<Rightarrow> [] | Inr st' \<Rightarrow> run_calls os cs st')"

text \<open>
  The cache key a virtual path resolves to, and the reference count of a key: that of
  the handle stored under it, 0 when none is stored (a handle starts at 0).
\<close>

definition path_key :: "tile_cacher \<Rightarrow> string \<Rightarrow> string option" where
  "path_key s path =
     (case dds_match path of
        None \<Rightarrow> None
      | Some (row, col, maptype, zoom) \<Rightarrow>
          Some (tile_idx (py_int row) (py_int col) (effective_maptype s maptype) (py_int zoom)))"

definition call_path :: "fs_call \<Rightarrow> string" where
  "call_path c = (case c of OpenCall path flags \<Rightarrow> path | ReleaseCall path fh \<Rightarrow> path)"

definition refcount :: "tile_cacher \<Rightarrow> string \<Rightarrow> int" where
  "refcount s idx = (case map_of (tiles s) idx of None \<Rightarrow> 0 | Some t \<Rightarrow> refs (heap s t))"

text \<open>
  Balanced, paired calls: every release closes an open made earlier in the sequence and
  no open is left at the end. \<open>d\<close> is the number of opens not yet released.
\<close>

fun balanced_from :: "nat \<Rightarrow> fs_call list \<Rightarrow> bool" where
  "balanced_from d [] = (d = 0)"
| "balanced_from d (OpenCall path flags # cs) = balanced_from (Suc d) cs"
| "balanced_from d (ReleaseCall path fh # cs) = (0 < d \<and> balanced_from (d - 1) cs)"

text \<open>
  An example host: the backing directory is empty and no descriptor is open, so every
  primitive fails (\<^verbatim>\<open>ENOENT\<close> for a path, \<^verbatim>\<open>EBADF\<close> for a descriptor).
\<close>

definition EBADF :: errno where
  "EBADF = 9"

definition empty_host :: "unit host_os" where
  "empty_host =
     \<lparr>getcwd = ''/'',
      os_lstat = (\<lambda>p h. Inl ENOENT),
      os_open = (\<lambda>p f h. Inl ENOENT),
      os_close = (\<lambda>fd h. Inl EBADF),
      os_lseek = (\<lambda>fd off h. Inl EBADF),
      os_read = (\<lambda>fd n h. Inl EBADF),
      os_write = (\<lambda>fd buf h. Inl EBADF),
      os_fsync = (\<lambda>fd h. Inl EBADF),
      open_truncate = (\<lambda>p n h. Inl ENOENT),
      read_dds_bytes = (\<lambda>t off n. []),
      os_access = (\<lambda>p m h. False),
      os_chmod = (\<lambda>p m h. Inl ENOENT),
      os_chown = (\<lambda>p u g h. Inl ENOENT),
      os_isdir = (\<lambda>p h. False),
      os_listdir = (\<lambda>p h. Inl ENOENT),
      os_readlink = (\<lambda>p h. Inl ENOENT),
      os_mknod = (\<lambda>p m d h. Inl ENOENT),
      os_rmdir = (\<lambda>p h. Inl ENOENT),
      os_mkdir = (\<lambda>p m h. Inl ENOENT),
      platform_system = ''Linux'',
      os_statvfs = (\<lambda>p h. Inl ENOENT),
      os_unlink = (\<lambda>p h. Inl ENOENT),
      os_symlink = (\<lambda>t p h. Inl ENOENT),
      os_rename = (\<lambda>p q h. Inl ENOENT),
      os_link = (\<lambda>p q h. Inl ENOENT),
      os_utime = (\<lambda>p t h. Inl ENOENT),
      os_open_mode = (\<lambda>p f m h. Inl ENOENT),
      fuse_get_context = (\<lambda>h. (0, 0, 0)),
      inherited_flush = (\<lambda>p fd h. Inr (0, h))\<rparr>"

section \<open>The naming convention as the specification words it\<close>

text \<open>
  For comparison with \<open>dds_match\<close>, the convention of the specification:
  \<^verbatim>\<open><digits><sep><digits><sep><nondigits-not-equal-"ZL"><digits>.dds\<close> with
  \<^verbatim>\<open><sep>\<close> one of \<^verbatim>\<open>-\<close> and \<^verbatim>\<open>_\<close>. \<open>name_fields_ok\<close> says that six pieces are fields
  and separators of that shape; \<open>spec_classify\<close> reads the filename (what follows the
  last slash of the path) by that convention.
\<close>

definition name_fields_ok :: "string \<Rightarrow> char \<Rightarrow> string \<Rightarrow> char \<Rightarrow> string \<Rightarrow> string \<Rightarrow> bool" where
  "name_fields_ok row s1 col s2 mt zoom \<longleftrightarrow>
     row \<noteq> [] \<and> list_all is_digit row \<and> s1 \<in> set ''-_''
     \<and> col \<noteq> [] \<and> list_all is_digit col \<and> s2 \<in> set ''-_''
     \<and> list_all (\<lambda>c. \<not> is_digit c) mt
     \<and> zoom \<noteq> [] \<and> list_all is_digit zoom"

definition spec_classify :: "string \<Rightarrow> (string \<times> string \<times> string \<times> string) option" where
  "spec_classify path =
     (let name = last (split_slash path);
          row = takeWhile is_digit name;
          r1 = dropWhile is_digit name
      in case r1 of
           [] \<Rightarrow> None
         | s1 # r2 \<Rightarrow>
             (let col = takeWhile is_digit r2;
                  r3 = dropWhile is_digit r2
              in case r3 of
                   [] \<Rightarrow> None
                 | s2 # r4 \<Rightarrow>
                     (let mt = takeWhile (\<lambda>c. \<not> is_digit c) r4;
                          r5 = dropWhile (\<lambda>c. \<not> is_digit c) r4;
                          zoom = takeWhile is_digit r5;
                          ext = dropWhile is_digit r5
                      in if name_fields_ok row s1 col s2 mt zoom \<and> mt \<noteq> ''ZL'' \<and> ext = ''.dds''
                         then Some (row, col, mt, zoom) else None)))"

section \<open>The reclamation batch beside open and release\<close>

text \<open>
  \<^verbatim>\<open>tile_lock\<close> keeps \<^verbatim>\<open>_get_tile\<close> out of a batch of the reclamation loop. The
  updates \<^verbatim>\<open>t.refs += 1\<close> of \<^verbatim>\<open>open\<close> and \<^verbatim>\<open>t.refs -= 1\<close> of \<^verbatim>\<open>release\<close> are
  made without the lock, on the handle \<^verbatim>\<open>_get_tile\<close> has returned, and so can fall
  between any two statements of a batch. The reclamation thread is at the test of the
  next key (\<open>AtCheck\<close>, with the keys still to visit) or, that test having found
  \<^verbatim>\<open>refs <= 0\<close>, at the removal of the key (\<open>AtPop\<close>). An event is one such statement
  of the reclamation thread, or one update of the count of a handle by another thread.
\<close>

datatype clean_pc = AtCheck "string list" | AtPop string "string list"

datatype batch_event = CleanStep | RefsIncr nat | RefsDecr nat

fun batch_step ::
  "batch_event \<Rightarrow> clean_pc \<times> tile_cacher \<Rightarrow> py_error + (clean_pc \<times> tile_cacher)" where
  "batch_step (RefsIncr t) (pc, s) = Inr (pc, add_refs t 1 s)"
| "batch_step (RefsDecr t) (pc, s) = Inr (pc, add_refs t (- 1) s)"
| "batch_step CleanStep (AtCheck [], s) = Inr (AtCheck [], s)"
| "batch_step CleanStep (AtCheck (i # ks), s) =
     (case clean_check i s of
        Inl e \<Rightarrow> Inl e
      | Inr idle \<Rightarrow> Inr (if idle then AtPop i ks else AtCheck ks, s))"
| "batch_step CleanStep (AtPop i ks, s) =
     (case clean_pop i s of
        Inl e \<Rightarrow> Inl e
      | Inr s' \<Rightarrow> Inr (AtCheck ks, s'))"

fun run_batch ::
  "batch_event list \<Rightarrow> clean_pc \<times> tile_cacher \<Rightarrow> py_error + (clean_pc \<times> tile_cacher)" where
  "run_batch [] st = Inr st"
| "run_batch (e # es) st =
     (case batch_step e st of
        Inl err \<Rightarrow> Inl err
      | Inr st' \<Rightarrow> run_batch es st')"

text \<open>\<^verbatim>\<open>for i in list(self.tiles.keys())[:20]\<close>: a batch starts with the 20 oldest keys.\<close>

definition batch_start :: "tile_cacher \<Rightarrow> clean_pc \<times> tile_cacher" where
  "batch_start s = (AtCheck (take 20 (map fst (tiles s))), s)"

section \<open>Properties of the tile cache\<close>

subsection \<open>Hit and miss counters\<close>

text \<open>
  C8. In \<^verbatim>\<open>_get_tile\<close> a miss is counted exactly when no handle is stored under the
  requested key, a hit exactly when a handle is stored and its reference count at the
  lookup is at most 0, and neither counter changes when the stored handle has a
  positive reference count.
\<close>

theorem get_tile_counters:
  "misses (snd (get_tile row col map_type zoom s)) =
     (if map_of (tiles s) (tile_idx row col (effective_maptype s map_type) zoom) = None
      then misses s + 1 else misses s)
   \<and> hits (snd (get_tile row col map_type zoom s)) =
     (if \<exists>t. map_of (tiles s) (tile_idx row col (effective_maptype s map_type) zoom) = Some t
            \<and> refs (heap s t) \<le> 0
      then hits s + 1 else hits s)"
  by (auto simp: get_tile_def get_tile_finish_def get_tile_lookup_def Let_def
           split: option.splits)

subsection \<open>Eviction\<close>

lemma tile_close_refs [simp]: "refs (tile_close t) = refs t"
  by (simp add: tile_close_def)

lemma tile_close_idem [simp]: "tile_close (tile_close t) = tile_close t"
  by (simp add: tile_close_def)

lemma map_of_distinct_entry:
  "distinct (map fst al) \<Longrightarrow> map_of al k = Some v \<Longrightarrow> (k, v') \<in> set al \<Longrightarrow> v' = v"
  by (metis map_of_is_SomeI option.inject)

lemma clean_keys_result:
  assumes "distinct ks" and "set ks \<subseteq> fst ` set (tiles s)" and "distinct (map fst (tiles s))"
  shows "clean_keys ks s =
     Inr (s\<lparr>tiles := filter (\<lambda>(k, t). \<not> (k \<in> set ks \<and> refs (heap s t) \<le> 0)) (tiles s),
            heap := (\<lambda>t. if \<exists>k. (k, t) \<in> set (tiles s) \<and> k \<in> set ks \<and> refs (heap s t) \<le> 0
                          then tile_close (heap s t) else heap s t)\<rparr>)"
  using assms
proof (induction ks arbitrary: s)
  case Nil
  then show ?case by simp
next
  case (Cons i ks)
  from Cons.prems obtain t where t: "map_of (tiles s) i = Some t"
    by (metis list.set_intros(1) subsetD map_of_eq_None_iff not_Some_eq)
  have uniq: "\<And>t'. (i, t') \<in> set (tiles s) \<Longrightarrow> t' = t"
    using map_of_distinct_entry [OF Cons.prems(3) t] .
  have mem: "(i, t) \<in> set (tiles s)"
    using t by (rule map_of_SomeD)
  show ?case
  proof (cases "refs (heap s t) \<le> 0")
    case True
    let ?s1 = "s\<lparr>tiles := AList.delete i (tiles s), heap := (heap s)(t := tile_close (heap s t))\<rparr>"
    have p1: "distinct ks" using Cons.prems(1) by simp
    have p2: "set ks \<subseteq> fst ` set (tiles ?s1)"
      using Cons.prems(1,2) by (auto simp: AList.delete_eq image_iff) force
    have p3: "distinct (map fst (tiles ?s1))"
      using Cons.prems(3) by (simp add: distinct_delete)
    have r: "\<And>u. refs (heap ?s1 u) = refs (heap s u)" by simp
    have tl: "filter (\<lambda>(k, u). \<not> (k \<in> set ks \<and> refs (heap ?s1 u) \<le> 0)) (tiles ?s1)
            = filter (\<lambda>(k, u). \<not> (k \<in> set (i # ks) \<and> refs (heap s u) \<le> 0)) (tiles s)"
    proof -
      have "filter (\<lambda>(k, u). \<not> (k \<in> set ks \<and> refs (heap s u) \<le> 0)) (filter (\<lambda>(k, u). i \<noteq> k) (tiles s))
            = filter (\<lambda>(k, u). \<not> (k \<in> set (i # ks) \<and> refs (heap s u) \<le> 0)) (tiles s)"
        unfolding filter_filter
      proof (rule filter_cong [OF refl])
        fix x assume x: "x \<in> set (tiles s)"
        obtain k u where ku: "x = (k, u)" by (cases x)
        have "k = i \<Longrightarrow> refs (heap s u) \<le> 0" using uniq x ku True by auto
        then show "((case x of (k, u) \<Rightarrow> i \<noteq> k) \<and> (case x of (k, u) \<Rightarrow> \<not> (k \<in> set ks \<and> refs (heap s u) \<le> 0)))
                = (case x of (k, u) \<Rightarrow> \<not> (k \<in> set (i # ks) \<and> refs (heap s u) \<le> 0))"
          unfolding ku by auto
      qed
      then show ?thesis unfolding r by (simp add: AList.delete_eq)
    qed
    have hp: "(\<lambda>u. if \<exists>k. (k, u) \<in> set (tiles ?s1) \<and> k \<in> set ks \<and> refs (heap ?s1 u) \<le> 0
                   then tile_close (heap ?s1 u) else heap ?s1 u)
            = (\<lambda>u. if \<exists>k. (k, u) \<in> set (tiles s) \<and> k \<in> set (i # ks) \<and> refs (heap s u) \<le> 0
                   then tile_close (heap s u) else heap s u)"
    proof (rule ext)
      fix u
      have inks: "i \<notin> set ks" using Cons.prems(1) by simp
      have del: "\<And>k. (k, u) \<in> set (tiles ?s1) \<longleftrightarrow> (k, u) \<in> set (tiles s) \<and> k \<noteq> i"
        by (auto simp: AList.delete_eq)
      show "(if \<exists>k. (k, u) \<in> set (tiles ?s1) \<and> k \<in> set ks \<and> refs (heap ?s1 u) \<le> 0
                   then tile_close (heap ?s1 u) else heap ?s1 u)
            = (if \<exists>k. (k, u) \<in> set (tiles s) \<and> k \<in> set (i # ks) \<and> refs (heap s u) \<le> 0
                   then tile_close (heap s u) else heap s u)"
      proof (cases "u = t")
        case ut: True
        have rhs: "\<exists>k. (k, u) \<in> set (tiles s) \<and> k \<in> set (i # ks) \<and> refs (heap s u) \<le> 0"
          using mem True ut by auto
        have h1: "heap ?s1 u = tile_close (heap s u)" using ut by simp
        show ?thesis unfolding h1 using rhs by simp
      next
        case ut: False
        have h1: "heap ?s1 u = heap s u" using ut by simp
        have noti: "(i, u) \<notin> set (tiles s)" using uniq ut by blast
        have "(\<exists>k. (k, u) \<in> set (tiles ?s1) \<and> k \<in> set ks \<and> refs (heap ?s1 u) \<le> 0)
            \<longleftrightarrow> (\<exists>k. (k, u) \<in> set (tiles s) \<and> k \<in> set (i # ks) \<and> refs (heap s u) \<le> 0)"
          unfolding del h1 using noti inks by auto
        then show ?thesis unfolding h1 by simp
      qed
    qed
    have "clean_keys (i # ks) s = clean_keys ks ?s1"
      using t True by simp
    also have "\<dots> = Inr (?s1\<lparr>tiles := filter (\<lambda>(k, u). \<not> (k \<in> set ks \<and> refs (heap ?s1 u) \<le> 0)) (tiles ?s1),
            heap := (\<lambda>u. if \<exists>k. (k, u) \<in> set (tiles ?s1) \<and> k \<in> set ks \<and> refs (heap ?s1 u) \<le> 0
                          then tile_close (heap ?s1 u) else heap ?s1 u)\<rparr>)"
      by (rule Cons.IH [OF p1 p2 p3])
    finally show ?thesis
      unfolding tl hp by simp
  next
    case False
    have p1: "distinct ks" using Cons.prems(1) by simp
    have p2: "set ks \<subseteq> fst ` set (tiles s)" using Cons.prems(2) by simp
    have tl: "filter (\<lambda>(k, u). \<not> (k \<in> set ks \<and> refs (heap s u) \<le> 0)) (tiles s)
            = filter (\<lambda>(k, u). \<not> (k \<in> set (i # ks) \<and> refs (heap s u) \<le> 0)) (tiles s)"
      using False uniq by (auto intro!: filter_cong)
    have hp: "(\<lambda>u. if \<exists>k. (k, u) \<in> set (tiles s) \<and> k \<in> set ks \<and> refs (heap s u) \<le> 0
                   then tile_close (heap s u) else heap s u)
            = (\<lambda>u. if \<exists>k. (k, u) \<in> set (tiles s) \<and> k \<in> set (i # ks) \<and> refs (heap s u) \<le> 0
                   then tile_close (heap s u) else heap s u)"
      using False uniq by (intro ext) auto
    have "clean_keys (i # ks) s = clean_keys ks s"
      using t False by simp
    also note Cons.IH [OF p1 p2 Cons.prems(3)]
    finally show ?thesis unfolding tl hp .
  qed
qed

lemma oldest_split:
  assumes "distinct (map fst al)"
  shows "filter (\<lambda>(k, t). \<not> (k \<in> set (take n (map fst al)) \<and> P t)) al
       = filter (\<lambda>(k, t). \<not> P t) (take n al) @ drop n al"
proof -
  have d: "distinct (map fst (take n al) @ map fst (drop n al))"
    using assms by (metis append_take_drop_id map_append)
  have a: "filter (\<lambda>(k, t). \<not> (k \<in> set (take n (map fst al)) \<and> P t)) (take n al)
         = filter (\<lambda>(k, t). \<not> P t) (take n al)"
    by (rule filter_cong [OF refl]) (force simp: take_map)
  have b: "filter (\<lambda>(k, t). \<not> (k \<in> set (take n (map fst al)) \<and> P t)) (drop n al) = drop n al"
  proof -
    have "\<And>x. x \<in> set (drop n al) \<Longrightarrow> fst x \<notin> set (take n (map fst al))"
      using d by (auto simp: take_map)
    then show ?thesis by (auto simp: filter_id_conv)
  qed
  have "filter (\<lambda>(k, t). \<not> (k \<in> set (take n (map fst al)) \<and> P t)) (take n al @ drop n al)
       = filter (\<lambda>(k, t). \<not> P t) (take n al) @ drop n al"
    unfolding filter_append a b ..
  then show ?thesis by simp
qed

lemma clean_batch_result:
  assumes "distinct (map fst (tiles s))"
  shows "clean_batch s =
     Inr (s\<lparr>tiles := filter (\<lambda>(k, t). \<not> refs (heap s t) \<le> 0) (take 20 (tiles s)) @ drop 20 (tiles s),
            heap := (\<lambda>t. if \<exists>k. (k, t) \<in> set (take 20 (tiles s)) \<and> refs (heap s t) \<le> 0
                          then tile_close (heap s t) else heap s t)\<rparr>)"
proof -
  let ?ks = "take 20 (map fst (tiles s))"
  have dk: "distinct ?ks" using assms by (rule distinct_take)
  have sk: "set ?ks \<subseteq> fst ` set (tiles s)"
    using set_take_subset [of 20 "map fst (tiles s)"] by simp
  have mem: "\<And>k t. (k, t) \<in> set (tiles s) \<and> k \<in> set ?ks \<longleftrightarrow> (k, t) \<in> set (take 20 (tiles s))"
  proof
    fix k t
    assume a: "(k, t) \<in> set (tiles s) \<and> k \<in> set ?ks"
    then obtain t' where t': "(k, t') \<in> set (take 20 (tiles s))" by (auto simp: take_map)
    then have "(k, t') \<in> set (tiles s)" by (rule in_set_takeD)
    then have "t' = t" using a assms by (metis map_of_eq_Some_iff option.inject)
    then show "(k, t) \<in> set (take 20 (tiles s))" using t' by simp
  next
    fix k t
    assume a: "(k, t) \<in> set (take 20 (tiles s))"
    then have "(k, t) \<in> set (tiles s)" by (rule in_set_takeD)
    moreover have "k \<in> set ?ks" using a by (force simp: take_map)
    ultimately show "(k, t) \<in> set (tiles s) \<and> k \<in> set ?ks" by simp
  qed
  have hp: "(\<lambda>t. if \<exists>k. (k, t) \<in> set (tiles s) \<and> k \<in> set ?ks \<and> refs (heap s t) \<le> 0
                 then tile_close (heap s t) else heap s t)
          = (\<lambda>t. if \<exists>k. (k, t) \<in> set (take 20 (tiles s)) \<and> refs (heap s t) \<le> 0
                 then tile_close (heap s t) else heap s t)"
    using mem by (intro ext) (metis (no_types, lifting))
  show ?thesis
    unfolding clean_batch_def clean_keys_result [OF dk sk assms]
      oldest_split [OF assms, of 20 "\<lambda>t. refs (heap s t) \<le> 0"] hp ..
qed

lemma clean_batch_distinct:
  assumes "distinct (map fst (tiles s))" and "clean_batch s = Inr s'"
  shows "distinct (map fst (tiles s'))"
proof -
  have "tiles s' = filter (\<lambda>(k, t). \<not> (k \<in> set (take 20 (map fst (tiles s))) \<and> refs (heap s t) \<le> 0)) (tiles s)"
    using assms(2) unfolding clean_batch_result [OF assms(1)]
      oldest_split [OF assms(1), of 20 "\<lambda>t. refs (heap s t) \<le> 0"] by auto
  then show ?thesis using assms(1) by (simp add: distinct_map_filter)
qed

text \<open>
  A batch run as one piece, with no update of a count inside it, changes no count and
  keeps every handle whose count is positive, stored and not closed.
\<close>

lemma clean_batch_refs:
  assumes "distinct (map fst (tiles s))" and "clean_batch s = Inr s'"
  shows "refs (heap s' t) = refs (heap s t)"
  using assms(2) unfolding clean_batch_result [OF assms(1)] by auto

lemma clean_batch_keeps:
  assumes "distinct (map fst (tiles s))" and "clean_batch s = Inr s'"
    and "map_of (tiles s) k = Some t" and "0 < refs (heap s t)"
  shows "map_of (tiles s') k = Some t \<and> heap s' t = heap s t"
proof -
  have ts: "tiles s' = filter (\<lambda>(k, t). \<not> (k \<in> set (take 20 (map fst (tiles s))) \<and> refs (heap s t) \<le> 0)) (tiles s)"
    using assms(2) unfolding clean_batch_result [OF assms(1)]
      oldest_split [OF assms(1), of 20 "\<lambda>t. refs (heap s t) \<le> 0"] by auto
  have "map_of (tiles s') k = Some t"
    unfolding ts using assms(3,4) by (intro map_of_filter_in) auto
  moreover have "heap s' t = heap s t"
    using assms(2,4) unfolding clean_batch_result [OF assms(1)] by auto
  ultimately show ?thesis by simp
qed

lemma clean_loop_exit:
  "\<not> (length (tiles s) \<ge> 90 \<and> cur_mem > memlimit) \<Longrightarrow> clean_loop samples cur_mem s = Some (Inr s)"
  by (subst clean_loop.simps) auto

lemma clean_loop_round:
  "length (tiles s) \<ge> 90 \<and> cur_mem > memlimit \<Longrightarrow> clean_batch s = Inr s1 \<Longrightarrow>
   clean_loop samples cur_mem s = (case samples of [] \<Rightarrow> None | m # rest \<Rightarrow> clean_loop rest m s1)"
  by (subst clean_loop.simps) simp

lemma clean_loop_keeps:
  assumes "distinct (map fst (tiles s))" and "clean_loop samples cur_mem s = Some r"
  shows "\<exists>s'. r = Inr s' \<and> distinct (map fst (tiles s')) \<and> (\<forall>t. refs (heap s' t) = refs (heap s t))
          \<and> (\<forall>k t. map_of (tiles s) k = Some t \<and> 0 < refs (heap s t)
                 \<longrightarrow> map_of (tiles s') k = Some t \<and> heap s' t = heap s t)"
  using assms
proof (induction samples arbitrary: cur_mem s)
  case Nil
  show ?case
  proof (cases "length (tiles s) \<ge> 90 \<and> cur_mem > memlimit")
    case False
    then have "r = Inr s" using Nil.prems(2) by (simp add: clean_loop_exit)
    then show ?thesis using Nil.prems(1) by simp
  next
    case True
    obtain s1 where s1: "clean_batch s = Inr s1"
      using clean_batch_result [OF Nil.prems(1)] by blast
    have "clean_loop [] cur_mem s = None"
      using clean_loop_round [OF True s1, of "[]"] by simp
    then show ?thesis using Nil.prems(2) by simp
  qed
next
  case (Cons m samples)
  show ?case
  proof (cases "length (tiles s) \<ge> 90 \<and> cur_mem > memlimit")
    case False
    then have "r = Inr s" using Cons.prems(2) by (simp add: clean_loop_exit)
    then show ?thesis using Cons.prems(1) by simp
  next
    case True
    obtain s1 where s1: "clean_batch s = Inr s1"
      using clean_batch_result [OF Cons.prems(1)] by blast
    have d1: "distinct (map fst (tiles s1))"
      using clean_batch_distinct [OF Cons.prems(1) s1] .
    have "clean_loop samples m s1 = Some r"
      using Cons.prems(2) clean_loop_round [OF True s1, of "m # samples"] by simp
    from Cons.IH [OF d1 this] obtain s' where s':
      "r = Inr s'" "distinct (map fst (tiles s'))" "\<forall>t. refs (heap s' t) = refs (heap s1 t)"
      "\<forall>k t. map_of (tiles s1) k = Some t \<and> 0 < refs (heap s1 t)
                 \<longrightarrow> map_of (tiles s') k = Some t \<and> heap s' t = heap s1 t"
      by blast
    have "\<forall>k t. map_of (tiles s) k = Some t \<and> 0 < refs (heap s t)
                 \<longrightarrow> map_of (tiles s') k = Some t \<and> heap s' t = heap s t"
    proof (intro allI impI)
      fix k t assume a: "map_of (tiles s) k = Some t \<and> 0 < refs (heap s t)"
      have b: "map_of (tiles s1) k = Some t \<and> heap s1 t = heap s t"
        using clean_batch_keeps [OF Cons.prems(1) s1] a by blast
      then have "map_of (tiles s1) k = Some t \<and> 0 < refs (heap s1 t)" using a by simp
      then have "map_of (tiles s') k = Some t \<and> heap s' t = heap s1 t" using s'(4) by blast
      then show "map_of (tiles s') k = Some t \<and> heap s' t = heap s t" using b by simp
    qed
    moreover have "\<forall>t. refs (heap s' t) = refs (heap s t)"
      using s'(3) clean_batch_refs [OF Cons.prems(1) s1] by simp
    ultimately show ?thesis using s'(1,2) by blast
  qed
qed

lemma ninety_tiles_distinct: "distinct (map fst (tiles ninety_tiles))"
  by code_simp

lemma ninety_tiles_oldest: "map_of (tiles ninety_tiles) ''0_0_BI_16'' = Some 0"
  by code_simp

lemma ninety_tiles_length: "length (tiles ninety_tiles) = 90"
  by (simp add: ninety_tiles_def)

lemma update_absent:
  "map_of al k = None \<Longrightarrow> AList.update k v al = al @ [(k, v)]"
  by (induction al) (auto split: if_splits)

lemma update_present:
  "map_of al k = Some v \<Longrightarrow> AList.update k v al = al"
  by (induction al) (auto split: if_splits)

subsection \<open>Keys of the dict\<close>

text \<open>
  \<^verbatim>\<open>self.tiles\<close> is a dict, so no key is in it twice: the list of the model starts
  empty and every step of \<^verbatim>\<open>_get_tile\<close>, of \<^verbatim>\<open>open\<close> and \<^verbatim>\<open>release\<close> and of the
  reclamation thread keeps its keys distinct.
\<close>

lemma new_tile_cacher_distinct: "distinct (map fst (tiles (new_tile_cacher cdir ov)))"
  by (simp add: new_tile_cacher_def)

lemma get_tile_finish_distinct:
  "distinct (map fst (tiles s)) \<Longrightarrow>
   distinct (map fst (tiles (snd (get_tile_finish row col map_type zoom idx tile s))))"
  by (auto simp: get_tile_finish_def Let_def distinct_update split: option.splits)

lemma get_tile_distinct:
  "distinct (map fst (tiles s)) \<Longrightarrow>
   distinct (map fst (tiles (snd (get_tile row col map_type zoom s))))"
  unfolding get_tile_def Let_def by (rule get_tile_finish_distinct)

lemma add_refs_tiles [simp]: "tiles (add_refs t d s) = tiles s"
  by (simp add: add_refs_def)

lemma clean_pop_distinct:
  "distinct (map fst (tiles s)) \<Longrightarrow> clean_pop i s = Inr s' \<Longrightarrow> distinct (map fst (tiles s'))"
  by (auto simp: clean_pop_def distinct_delete split: option.splits)

lemma batch_step_distinct:
  assumes "distinct (map fst (tiles (snd st)))" and "batch_step e st = Inr st'"
  shows "distinct (map fst (tiles (snd st')))"
proof (cases st)
  case (Pair pc s)
  show ?thesis
  proof (cases e)
    case CleanStep
    show ?thesis
    proof (cases pc)
      case (AtCheck ks)
      then show ?thesis
        using assms Pair CleanStep by (cases ks) (auto split: sum.splits)
    next
      case (AtPop i ks)
      then show ?thesis
        using assms Pair CleanStep clean_pop_distinct [of s i]
        by (auto split: sum.splits)
    qed
  next
    case (RefsIncr t)
    then show ?thesis using assms Pair by auto
  next
    case (RefsDecr t)
    then show ?thesis using assms Pair by auto
  qed
qed

subsection \<open>A batch that no other thread interleaves with\<close>

text \<open>
  Stepped through with no update of a count in between, the statements of a batch give
  what \<open>clean_keys\<close> gives.
\<close>

lemma run_batch_done:
  "run_batch (replicate n CleanStep) (AtCheck [], s) = Inr (AtCheck [], s)"
  by (induction n) simp_all

lemma run_batch_alone:
  "2 * length ks \<le> n \<Longrightarrow>
   run_batch (replicate n CleanStep) (AtCheck ks, s) =
     (case clean_keys ks s of Inl e \<Rightarrow> Inl e | Inr s' \<Rightarrow> Inr (AtCheck [], s'))"
proof (induction ks arbitrary: n s)
  case Nil
  then show ?case by (simp add: run_batch_done)
next
  case (Cons i ks)
  then obtain m where n: "n = Suc (Suc m)" and m: "2 * length ks \<le> m"
    by (cases n) (auto simp: Suc_le_eq elim: lessE)
  show ?case
  proof (cases "map_of (tiles s) i")
    case None
    then show ?thesis by (simp add: n clean_check_def)
  next
    case (Some t)
    show ?thesis
    proof (cases "refs (heap s t) \<le> 0")
      case True
      then show ?thesis
        using Cons.IH [OF m] by (simp add: n Some clean_check_def clean_pop_def)
    next
      case False
      have "2 * length ks \<le> Suc m" using m by simp
      from Cons.IH [OF this] False show ?thesis
        by (simp add: n Some clean_check_def)
    qed
  qed
qed

lemma clean_batch_steps:
  "run_batch (replicate 40 CleanStep) (batch_start s) =
     (case clean_batch s of Inl e \<Rightarrow> Inl e | Inr s' \<Rightarrow> Inr (AtCheck [], s'))"
  unfolding batch_start_def clean_batch_def
  by (rule run_batch_alone) simp

subsection \<open>An update of a count inside a batch\<close>

text \<open>
  C2. The claim is that, with the reclamation loop interleaved with \<^verbatim>\<open>open\<close>,
  \<^verbatim>\<open>read\<close> and \<^verbatim>\<open>release\<close>, the loop never removes a handle whose reference count
  is greater than 0. The loop tests \<^verbatim>\<open>t.refs <= 0\<close> under \<^verbatim>\<open>tile_lock\<close>, but
  \<^verbatim>\<open>open\<close> raises the count without the lock. In the run below ninety tiles are
  cached, so a batch is due once the memory is above the limit. An \<^verbatim>\<open>open\<close> of
  \<^verbatim>\<open>/1_0_BI16.dds\<close> has its handle, 1, from \<^verbatim>\<open>_get_tile\<close>, with count 0. The batch
  starts, passes the key of handle 0 (count 1) and tests the key of handle 1; then
  \<^verbatim>\<open>open\<close> makes its \<^verbatim>\<open>t.refs += 1\<close>, and the handle is stored with count 1 and not
  closed. The next statement of the batch removes that handle from \<^verbatim>\<open>self.tiles\<close> and
  closes it, with its count at 1.
\<close>

theorem clean_evicts_referenced:
  "90 \<le> length (tiles ninety_tiles)
   \<and> (case get_tile 1 0 ''BI'' 16 ninety_tiles of
        (t, s0) \<Rightarrow>
          t = 1 \<and> refs (heap s0 1) = 0 \<and> 90 \<le> length (tiles s0)
          \<and> (case run_batch [CleanStep, CleanStep, RefsIncr t] (batch_start s0) of
                Inl e \<Rightarrow> False
              | Inr (pc, s) \<Rightarrow>
                  pc = AtPop ''1_0_BI_16'' (take 18 (drop 2 (map fst (tiles s0))))
                  \<and> map_of (tiles s) ''1_0_BI_16'' = Some 1
                  \<and> refs (heap s 1) = 1 \<and> \<not> is_closed (heap s 1))
          \<and> (case run_batch [CleanStep, CleanStep, RefsIncr t, CleanStep] (batch_start s0) of
                Inl e \<Rightarrow> False
              | Inr (pc, s) \<Rightarrow>
                  map_of (tiles s) ''1_0_BI_16'' = None
                  \<and> refs (heap s 1) = 1 \<and> is_closed (heap s 1)))"
  by code_simp

text \<open>
  C7. While at least 90 handles are cached and the resident memory is above 2 GiB, a
  round of the loop takes the 20 oldest-inserted keys and removes those among them
  whose handle has a reference count at most 0, so at most 20 handles a round; each
  handle removed has had \<^verbatim>\<open>close()\<close> called, the handles kept keep their order, and
  the loop goes on with the next memory sample. The order of \<^verbatim>\<open>self.tiles\<close> is the
  order of insertion: \<^verbatim>\<open>_get_tile\<close> puts a new key last and leaves the order alone
  when the key is there already.
\<close>

theorem clean_round:
  assumes "distinct (map fst (tiles s))"
  shows "(\<exists>s'. clean_batch s = Inr s'
          \<and> tiles s' = filter (\<lambda>(k, t). 0 < refs (heap s t)) (take 20 (tiles s)) @ drop 20 (tiles s)
          \<and> (\<forall>t. heap s' t =
                (if \<exists>k. (k, t) \<in> set (take 20 (tiles s)) \<and> refs (heap s t) \<le> 0
                 then tile_close (heap s t) else heap s t))
          \<and> hits s' = hits s \<and> misses s' = misses s \<and> allocated s' = allocated s
          \<and> clean_loop samples cur_mem s =
                (if 90 \<le> length (tiles s) \<and> 2147483648 < cur_mem
                 then (case samples of [] \<Rightarrow> None | m # rest \<Rightarrow> clean_loop rest m s')
                 else Some (Inr s)))
       \<and> tiles (snd (get_tile row col map_type zoom s)) =
           (case map_of (tiles s) (tile_idx row col (effective_maptype s map_type) zoom) of
              None \<Rightarrow> tiles s @ [(tile_idx row col (effective_maptype s map_type) zoom, allocated s)]
            | Some t \<Rightarrow> tiles s)"
proof
  let ?s' = "s\<lparr>tiles := filter (\<lambda>(k, t). \<not> refs (heap s t) \<le> 0) (take 20 (tiles s)) @ drop 20 (tiles s),
            heap := (\<lambda>t. if \<exists>k. (k, t) \<in> set (take 20 (tiles s)) \<and> refs (heap s t) \<le> 0
                          then tile_close (heap s t) else heap s t)\<rparr>"
  have b: "clean_batch s = Inr ?s'"
    by (rule clean_batch_result [OF assms])
  have f: "filter (\<lambda>(k, t). \<not> refs (heap s t) \<le> 0) (take 20 (tiles s))
         = filter (\<lambda>(k, t). 0 < refs (heap s t)) (take 20 (tiles s))"
    by (rule filter_cong [OF refl]) auto
  have l: "clean_loop samples cur_mem s =
                (if 90 \<le> length (tiles s) \<and> 2147483648 < cur_mem
                 then (case samples of [] \<Rightarrow> None | m # rest \<Rightarrow> clean_loop rest m ?s')
                 else Some (Inr s))"
  proof (cases "90 \<le> length (tiles s) \<and> memlimit < cur_mem")
    case True
    then show ?thesis using clean_loop_round [OF _ b, of cur_mem samples]
      by (simp add: memlimit_def)
  next
    case False
    then show ?thesis using clean_loop_exit [of s cur_mem samples]
      by (auto simp: memlimit_def)
  qed
  show "\<exists>s'. clean_batch s = Inr s'
          \<and> tiles s' = filter (\<lambda>(k, t). 0 < refs (heap s t)) (take 20 (tiles s)) @ drop 20 (tiles s)
          \<and> (\<forall>t. heap s' t =
                (if \<exists>k. (k, t) \<in> set (take 20 (tiles s)) \<and> refs (heap s t) \<le> 0
                 then tile_close (heap s t) else heap s t))
          \<and> hits s' = hits s \<and> misses s' = misses s \<and> allocated s' = allocated s
          \<and> clean_loop samples cur_mem s =
                (if 90 \<le> length (tiles s) \<and> 2147483648 < cur_mem
                 then (case samples of [] \<Rightarrow> None | m # rest \<Rightarrow> clean_loop rest m s')
                 else Some (Inr s))"
    by (rule exI [of _ ?s']) (simp add: b f l)
next
  show "tiles (snd (get_tile row col map_type zoom s)) =
           (case map_of (tiles s) (tile_idx row col (effective_maptype s map_type) zoom) of
              None \<Rightarrow> tiles s @ [(tile_idx row col (effective_maptype s map_type) zoom, allocated s)]
            | Some t \<Rightarrow> tiles s)"
    by (simp add: get_tile_def get_tile_finish_def get_tile_lookup_def Let_def update_absent
             split: option.splits)
qed

theorem clean_round_witness:
  "distinct (map fst (tiles ninety_tiles))
   \<and> (\<exists>s'. clean_loop [0] (2 ^ 32) ninety_tiles = Some (Inr s')
          \<and> map fst (tiles s') = ''0_0_BI_16'' # map (\<lambda>n. tile_idx (int n) 0 ''BI'' 16) [20 ..< 90]
          \<and> is_closed (heap s' 1) \<and> is_closed (heap s' 19)
          \<and> \<not> is_closed (heap s' 0) \<and> \<not> is_closed (heap s' 20))"
proof -
  from clean_round [OF ninety_tiles_distinct, of "[0]" "2 ^ 32"]
  obtain s' where
    tl: "tiles s' = filter (\<lambda>(k, t). 0 < refs (heap ninety_tiles t)) (take 20 (tiles ninety_tiles))
                     @ drop 20 (tiles ninety_tiles)"
    and hp: "\<forall>t. heap s' t =
                (if \<exists>k. (k, t) \<in> set (take 20 (tiles ninety_tiles)) \<and> refs (heap ninety_tiles t) \<le> 0
                 then tile_close (heap ninety_tiles t) else heap ninety_tiles t)"
    and lp: "clean_loop [0] (2 ^ 32) ninety_tiles =
                (if 90 \<le> length (tiles ninety_tiles) \<and> 2147483648 < (2 ^ 32 :: nat)
                 then (case [0] of [] \<Rightarrow> None | m # rest \<Rightarrow> clean_loop rest m s')
                 else Some (Inr ninety_tiles))"
    by blast
  have "clean_loop [0] (2 ^ 32) ninety_tiles = clean_loop [] 0 s'"
    unfolding lp by (simp add: ninety_tiles_length)
  also have "\<dots> = Some (Inr s')"
    by (rule clean_loop_exit) simp
  finally have run: "clean_loop [0] (2 ^ 32) ninety_tiles = Some (Inr s')" .
  have t20: "take 20 (tiles ninety_tiles) = map (\<lambda>n. (tile_idx (int n) 0 ''BI'' 16, n)) [0 ..< 20]"
    by (simp add: ninety_tiles_def take_map)
  have d20: "drop 20 (tiles ninety_tiles) = map (\<lambda>n. (tile_idx (int n) 0 ''BI'' 16, n)) [20 ..< 90]"
    by (simp add: ninety_tiles_def drop_map)
  have rf: "\<And>n. refs (heap ninety_tiles n) = (if n = 0 then 1 else 0)"
    by (simp add: ninety_tiles_def new_tile_def)
  have keys: "map fst (tiles s') = ''0_0_BI_16'' # map (\<lambda>n. tile_idx (int n) 0 ''BI'' 16) [20 ..< 90]"
    unfolding tl t20 d20 by (simp add: rf filter_map comp_def upt_conv_Cons tile_idx_def py_str_def str_nat.simps digit_char_def)
  have cl: "\<And>n. is_closed (heap s' n) \<longleftrightarrow> (\<exists>k. (k, n) \<in> set (take 20 (tiles ninety_tiles)) \<and> n \<noteq> 0)"
    using hp by (simp add: rf tile_close_def) (simp add: ninety_tiles_def new_tile_def)
  have c1: "is_closed (heap s' 1)" and c19: "is_closed (heap s' 19)"
    and c0: "\<not> is_closed (heap s' 0)" and c20: "\<not> is_closed (heap s' 20)"
    unfolding cl t20 by (auto simp: image_iff Bex_def)
  show ?thesis
    by (intro conjI exI [of _ s'] ninety_tiles_distinct run keys c1 c19 c0 c20)
qed

subsection \<open>Concurrent first requests\<close>

lemma get_tile_two_steps:
  "run_threads row col map_type zoom [0, 0] ([Ready], s) =
     (case get_tile row col map_type zoom s of (t, s') \<Rightarrow> ([Returned t], s'))"
proof -
  have o: "effective_maptype (snd (Looked x, s)) map_type = effective_maptype s map_type" for x
    by simp
  show ?thesis
    by (simp add: get_tile_step_def get_tile_def Let_def split: prod.splits)
qed

text \<open>
  C1. The claim is that any number of concurrent calls of \<^verbatim>\<open>_get_tile\<close> with one
  tile identity construct the tile once and yield one handle. The lookup and the
  construction are two critical sections, and two threads can both finish the first
  before either enters the second. The schedule below runs two callers of
  \<^verbatim>\<open>_get_tile(3232, 2176, "Null", 13)\<close> on an empty cache that way: both see a miss,
  \<^verbatim>\<open>getortho.Tile\<close> is constructed twice, the callers return the distinct handles 0
  and 1, and the second store replaces the first in \<^verbatim>\<open>self.tiles\<close>.
\<close>

theorem get_tile_race:
  "(case run_threads 3232 2176 ''Null'' 13 [0, 1, 0, 1]
           ([Ready, Ready], new_tile_cacher ''.cache'' None) of
      (pcs, s) \<Rightarrow>
        pcs = [Returned 0, Returned 1] \<and> allocated s = 2 \<and> misses s = 2
        \<and> tiles s = [(''3232_2176_Null_13'', 1)])"
  by (simp add: get_tile_step_def get_tile_lookup_def get_tile_finish_def new_tile_cacher_def
        effective_maptype_def tile_idx_def py_str_def str_nat.simps digit_char_def Let_def)

subsection \<open>Reference counts\<close>

lemma get_tile_refcount:
  assumes "get_tile row col map_type zoom s = (t, s')"
  shows "map_of (tiles s') (tile_idx row col (effective_maptype s map_type) zoom) = Some t
       \<and> refs (heap s' t) = refcount s (tile_idx row col (effective_maptype s map_type) zoom)
       \<and> maptype_override s' = maptype_override s"
  using assms
  by (auto simp: get_tile_def get_tile_finish_def get_tile_lookup_def Let_def refcount_def
        new_tile_def update_conv' split: option.splits if_splits)

lemma add_refs_refcount:
  assumes "map_of (tiles s) idx = Some t"
  shows "refcount (add_refs t d s) idx = refs (heap s t) + d"
  using assms by (simp add: refcount_def add_refs_def)

lemma add_refs_override [simp]:
  "maptype_override (add_refs t d s) = maptype_override s"
  by (simp add: add_refs_def)

lemma path_key_override:
  "maptype_override s' = maptype_override s \<Longrightarrow> path_key s' path = path_key s path"
  by (simp add: path_key_def effective_maptype_def split: option.splits)

lemma do_call_refcount:
  assumes "path_key (tc ao) (call_path c) = Some idx"
  shows "\<exists>ao'. do_call os c (ao, h) = Inr (ao', h)
           \<and> maptype_override (tc ao') = maptype_override (tc ao)
           \<and> refcount (tc ao') idx =
               refcount (tc ao) idx + (case c of OpenCall p f \<Rightarrow> 1 | ReleaseCall p f \<Rightarrow> - 1)"
proof (cases c)
  case (OpenCall p f)
  from assms obtain row col maptype zoom where
    m: "dds_match p = Some (row, col, maptype, zoom)"
    and k: "idx = tile_idx (py_int row) (py_int col) (effective_maptype (tc ao) maptype) (py_int zoom)"
    by (auto simp: path_key_def call_path_def OpenCall split: option.splits)
  obtain t s' where g: "get_tile (py_int row) (py_int col) maptype (py_int zoom) (tc ao) = (t, s')"
    by (cases "get_tile (py_int row) (py_int col) maptype (py_int zoom) (tc ao)")
  note r = get_tile_refcount [OF g, folded k]
  have "refcount (add_refs t 1 s') idx = refcount (tc ao) idx + 1"
    using add_refs_refcount [of s' idx t 1] r by simp
  then show ?thesis
    using r by (simp add: do_call_def ao_open_def OpenCall m g)
next
  case (ReleaseCall p f)
  from assms obtain row col maptype zoom where
    m: "dds_match p = Some (row, col, maptype, zoom)"
    and k: "idx = tile_idx (py_int row) (py_int col) (effective_maptype (tc ao) maptype) (py_int zoom)"
    by (auto simp: path_key_def call_path_def ReleaseCall split: option.splits)
  obtain t s' where g: "get_tile (py_int row) (py_int col) maptype (py_int zoom) (tc ao) = (t, s')"
    by (cases "get_tile (py_int row) (py_int col) maptype (py_int zoom) (tc ao)")
  note r = get_tile_refcount [OF g, folded k]
  have "refcount (add_refs t (- 1) s') idx = refcount (tc ao) idx - 1"
    using add_refs_refcount [of s' idx t "- 1"] r by simp
  then show ?thesis
    using r by (simp add: do_call_def ao_release_def ReleaseCall m g)
qed

lemma run_calls_balanced:
  assumes "\<forall>c \<in> set cs. path_key (tc ao) (call_path c) = Some idx"
    and "balanced_from d cs"
  shows "length (run_calls os cs (ao, h)) = Suc (length cs)
       \<and> (\<forall>st \<in> set (run_calls os cs (ao, h)). refcount (tc ao) idx - int d \<le> refcount (tc (fst st)) idx)
       \<and> refcount (tc (fst (last (run_calls os cs (ao, h))))) idx = refcount (tc ao) idx - int d"
  using assms
proof (induction cs arbitrary: ao d)
  case Nil
  then show ?case by simp
next
  case (Cons c cs)
  have pk: "path_key (tc ao) (call_path c) = Some idx" using Cons.prems(1) by simp
  from do_call_refcount [OF pk, of os h] obtain ao' where
    dc: "do_call os c (ao, h) = Inr (ao', h)"
    and ov: "maptype_override (tc ao') = maptype_override (tc ao)"
    and rc: "refcount (tc ao') idx =
               refcount (tc ao) idx + (case c of OpenCall p f \<Rightarrow> 1 | ReleaseCall p f \<Rightarrow> - 1)"
    by blast
  have keys: "\<forall>c \<in> set cs. path_key (tc ao') (call_path c) = Some idx"
    using Cons.prems(1) path_key_override [OF ov] by simp
  have ne: "run_calls os cs (ao', h) \<noteq> []" by (cases cs) simp_all
  show ?case
  proof (cases c)
    case (OpenCall p f)
    then have b: "balanced_from (Suc d) cs" using Cons.prems(2) by simp
    have rc': "refcount (tc ao') idx = refcount (tc ao) idx + 1" using rc OpenCall by simp
    from Cons.IH [OF keys b] show ?thesis
      using dc ne by (simp add: rc')
  next
    case (ReleaseCall p f)
    then have d0: "0 < d" and b: "balanced_from (d - 1) cs" using Cons.prems(2) by simp_all
    have rc': "refcount (tc ao') idx = refcount (tc ao) idx - 1" using rc ReleaseCall by simp
    have dd: "int (d - 1) = int d - 1" using d0 by simp
    from Cons.IH [OF keys b] show ?thesis
      using dc ne d0 by (simp add: rc' dd)
  qed
qed

text \<open>
  C3. For any sequence of balanced, paired open and release calls on paths of one
  virtual tile identity, every call returns, the identity's reference count never falls
  below its value from before the sequence, so it is at least 0 in every state the
  sequence goes through when it was at least 0 before (a key with no handle counts 0),
  and after the sequence the count has its value from before.
\<close>

theorem open_release_balanced:
  assumes "\<forall>c \<in> set cs. path_key (tc ao) (call_path c) = Some idx"
    and "balanced_from 0 cs"
  shows "length (run_calls os cs (ao, h)) = Suc (length cs)
       \<and> (\<forall>st \<in> set (run_calls os cs (ao, h)). refcount (tc ao) idx \<le> refcount (tc (fst st)) idx)
       \<and> (0 \<le> refcount (tc ao) idx
            \<longrightarrow> (\<forall>st \<in> set (run_calls os cs (ao, h)). 0 \<le> refcount (tc (fst st)) idx))
       \<and> refcount (tc (fst (last (run_calls os cs (ao, h))))) idx = refcount (tc ao) idx"
proof -
  note b = run_calls_balanced [OF assms, of os h]
  have low: "\<forall>st \<in> set (run_calls os cs (ao, h)). refcount (tc ao) idx \<le> refcount (tc (fst st)) idx"
    using b by simp
  then have "0 \<le> refcount (tc ao) idx
            \<longrightarrow> (\<forall>st \<in> set (run_calls os cs (ao, h)). 0 \<le> refcount (tc (fst st)) idx)"
    by (meson order_trans)
  then show ?thesis using b low by simp
qed

lemma dds_match_test_tile:
  "dds_match ''/24832_12416_BI16.dds'' = Some (''24832'', ''12416'', ''BI'', ''16'')"
  by (simp add: dds_match_def dds_re_def is_digit_def)

theorem open_release_balanced_witness:
  "path_key (tc (new_autoortho ''./testfiles'' ''.cache'' None)) ''/24832_12416_BI16.dds''
     = Some ''24832_12416_BI_16''
   \<and> balanced_from 0
        [OpenCall ''/24832_12416_BI16.dds'' 0, OpenCall ''/24832_12416_BI16.dds'' 0,
         ReleaseCall ''/24832_12416_BI16.dds'' 0, ReleaseCall ''/24832_12416_BI16.dds'' 0]
   \<and> refcount (tc (new_autoortho ''./testfiles'' ''.cache'' None)) ''24832_12416_BI_16'' = 0
   \<and> length (run_calls empty_host
        [OpenCall ''/24832_12416_BI16.dds'' 0, OpenCall ''/24832_12416_BI16.dds'' 0,
         ReleaseCall ''/24832_12416_BI16.dds'' 0, ReleaseCall ''/24832_12416_BI16.dds'' 0]
        (new_autoortho ''./testfiles'' ''.cache'' None, ())) = 5
   \<and> list_all (\<lambda>st. 0 \<le> refcount (tc (fst st)) ''24832_12416_BI_16'')
        (run_calls empty_host
          [OpenCall ''/24832_12416_BI16.dds'' 0, OpenCall ''/24832_12416_BI16.dds'' 0,
           ReleaseCall ''/24832_12416_BI16.dds'' 0, ReleaseCall ''/24832_12416_BI16.dds'' 0]
          (new_autoortho ''./testfiles'' ''.cache'' None, ()))
   \<and> refcount (tc (fst (last (run_calls empty_host
        [OpenCall ''/24832_12416_BI16.dds'' 0, OpenCall ''/24832_12416_BI16.dds'' 0,
         ReleaseCall ''/24832_12416_BI16.dds'' 0, ReleaseCall ''/24832_12416_BI16.dds'' 0]
        (new_autoortho ''./testfiles'' ''.cache'' None, ()))))) ''24832_12416_BI_16'' = 0"
proof -
  let ?ao = "new_autoortho ''./testfiles'' ''.cache'' None"
  let ?cs = "[OpenCall ''/24832_12416_BI16.dds'' 0, OpenCall ''/24832_12416_BI16.dds'' 0,
         ReleaseCall ''/24832_12416_BI16.dds'' 0, ReleaseCall ''/24832_12416_BI16.dds'' 0]"
  have k: "path_key (tc ?ao) ''/24832_12416_BI16.dds'' = Some ''24832_12416_BI_16''"
    by (simp add: path_key_def dds_match_test_tile new_autoortho_def new_tile_cacher_def
          effective_maptype_def tile_idx_def py_int_def digit_val_def py_str_def
          str_nat.simps digit_char_def)
  have ks: "\<forall>c \<in> set ?cs. path_key (tc ?ao) (call_path c) = Some ''24832_12416_BI_16''"
    using k by (simp add: call_path_def)
  have b: "balanced_from 0 ?cs" by simp
  have r: "refcount (tc ?ao) ''24832_12416_BI_16'' = 0"
    by (simp add: refcount_def new_autoortho_def new_tile_cacher_def)
  from open_release_balanced [OF ks b, of empty_host "()"] r
  show ?thesis
    using k b by (simp add: list_all_iff)
qed

section \<open>Properties of the filesystem operations\<close>

subsection \<open>Attributes of a virtual path\<close>

text \<open>
  C5. For every path the classifier recognizes, \<^verbatim>\<open>getattr\<close> returns the fixed record:
  size 22369744, block size 32768, link count 1, mode 33204, the fixed timestamps, and
  the object's default uid and gid, which are 0 unless overridden. The record does not
  depend on the fields parsed from the name, nor on the host, so not on whether a real
  file of that name exists; the query does not fail.
\<close>

theorem getattr_virtual:
  assumes "dds_match path = Some g"
  shows "ao_getattr os ao path h =
           Inr \<lparr>st_atime = 1649857250.382081, st_ctime = 1649857251.726115,
                st_gid = default_gid ao, st_uid = default_uid ao, st_mode = 33204,
                st_mtime = 1649857251.726115, st_nlink = 1, st_size = 22369744,
                st_blksize = Some 32768\<rparr>
       \<and> default_uid (new_autoortho rootdir cdir ov) = 0
       \<and> default_gid (new_autoortho rootdir cdir ov) = 0"
  using assms by (cases g) (simp add: ao_getattr_def new_autoortho_def)

theorem getattr_virtual_witness:
  "dds_match ''/24832_12416_BI16.dds'' = Some (''24832'', ''12416'', ''BI'', ''16'')
   \<and> os_lstat empty_host
        (full_path (getcwd empty_host) ''./testfiles'' ''/24832_12416_BI16.dds'') () = Inl ENOENT
   \<and> ao_getattr empty_host (new_autoortho ''./testfiles'' ''.cache'' None)
        ''/24832_12416_BI16.dds'' () =
           Inr \<lparr>st_atime = 1649857250.382081, st_ctime = 1649857251.726115,
                st_gid = 0, st_uid = 0, st_mode = 33204,
                st_mtime = 1649857251.726115, st_nlink = 1, st_size = 22369744,
                st_blksize = Some 32768\<rparr>"
  using getattr_virtual [OF dds_match_test_tile, of empty_host
      "new_autoortho ''./testfiles'' ''.cache'' None" "()" "''./testfiles''" "''.cache''" None]
    dds_match_test_tile
  by (simp add: empty_host_def)

subsection \<open>Truncate, write and flush\<close>

text \<open>
  C6 as stated: on a virtual path \<^verbatim>\<open>truncate\<close>, \<^verbatim>\<open>_write\<close> and \<^verbatim>\<open>_flush\<close> return
  success. \<^verbatim>\<open>truncate\<close> does not consult the classifier: it opens the re-rooted real
  path, and where no such file exists (the usual case for a generated texture) the
  call fails with \<^verbatim>\<open>ENOENT\<close>.
\<close>

theorem truncate_virtual_fails:
  "dds_match ''/24832_12416_BI16.dds'' = Some (''24832'', ''12416'', ''BI'', ''16'')
   \<and> ao_truncate empty_host ''/24832_12416_BI16.dds'' 0
        (new_autoortho ''./testfiles'' ''.cache'' None, ()) = Inl ENOENT"
  by (simp add: dds_match_test_tile ao_truncate_def empty_host_def)

text \<open>
  C6, amended. On a virtual path \<^verbatim>\<open>_flush\<close> returns 0 and changes neither the tile
  cache nor the host. \<^verbatim>\<open>truncate\<close> and \<^verbatim>\<open>_write\<close> are passed to the host, the first
  against the re-rooted real path and the second against the descriptor: they fail
  exactly when the host primitive fails, with its error, and when they succeed the
  \<^verbatim>\<open>AutoOrtho\<close> object and its tile cache are as before.
\<close>

theorem virtual_truncate_write_flush:
  assumes "dds_match path = Some g"
  shows "ao_flush os path fh (ao, h) = Inr (0, ao, h)
       \<and> (case ao_truncate os path len (ao, h) of
            Inl e \<Rightarrow> open_truncate os (full_path (getcwd os) (ao_root ao) path) len h = Inl e
          | Inr (r, ao', h') \<Rightarrow>
              r = 0 \<and> ao' = ao
              \<and> open_truncate os (full_path (getcwd os) (ao_root ao) path) len h = Inr h')
       \<and> (case ao_write os path buf offset fh (ao, h) of
            Inl e \<Rightarrow>
              os_lseek os fh offset h = Inl e
              \<or> (\<exists>h1. os_lseek os fh offset h = Inr h1 \<and> os_write os fh buf h1 = Inl e)
          | Inr (n, ao', h') \<Rightarrow>
              ao' = ao
              \<and> (\<exists>h1. os_lseek os fh offset h = Inr h1 \<and> os_write os fh buf h1 = Inr (n, h')))"
  using assms
  by (cases g) (auto simp: ao_flush_def ao_truncate_def ao_write_def split: sum.splits prod.splits)

theorem virtual_truncate_write_flush_witness:
  "dds_match ''/24832_12416_BI16.dds'' = Some (''24832'', ''12416'', ''BI'', ''16'')
   \<and> ao_flush empty_host ''/24832_12416_BI16.dds'' 0
        (new_autoortho ''./testfiles'' ''.cache'' None, ())
       = Inr (0, new_autoortho ''./testfiles'' ''.cache'' None, ())"
  using virtual_truncate_write_flush [OF dds_match_test_tile, of empty_host 0
      "new_autoortho ''./testfiles'' ''.cache'' None" "()"]
    dds_match_test_tile
  by simp

subsection \<open>Leading zeros\<close>

lemma digit_val_zero: "digit_val CHR ''0'' = 0"
  by (simp add: digit_val_def)

lemma py_int_leading_zeros: "py_int (replicate n CHR ''0'' @ ds) = py_int ds"
proof -
  have "foldl (\<lambda>a c. 10 * a + digit_val c) 0 (replicate n CHR ''0'') = 0"
    by (induction n) (simp_all add: digit_val_zero)
  then show ?thesis by (simp add: py_int_def)
qed

lemma get_tile_allocated:
  "allocated (snd (get_tile row col map_type zoom s)) \<le> Suc (allocated s)
   \<and> (map_of (tiles s) (tile_idx row col (effective_maptype s map_type) zoom) \<noteq> None
        \<longrightarrow> allocated (snd (get_tile row col map_type zoom s)) = allocated s)"
  by (auto simp: get_tile_def get_tile_finish_def get_tile_lookup_def Let_def split: option.splits)

lemma get_tile_present:
  assumes "map_of (tiles s) (tile_idx row col (effective_maptype s map_type) zoom) = Some t"
  shows "\<exists>s'. get_tile row col map_type zoom s = (t, s') \<and> tiles s' = tiles s
           \<and> heap s' = heap s \<and> allocated s' = allocated s
           \<and> maptype_override s' = maptype_override s"
  using assms
  by (simp add: get_tile_def get_tile_finish_def get_tile_lookup_def Let_def)

lemma effective_maptype_override:
  "maptype_override s' = maptype_override s \<Longrightarrow>
   effective_maptype s' map_type = effective_maptype s map_type"
  by (simp add: effective_maptype_def)

text \<open>
  C10. \<^verbatim>\<open>open\<close>, \<^verbatim>\<open>read\<close> and \<^verbatim>\<open>release\<close> convert the row, column and zoom
  groups with \<^verbatim>\<open>int\<close> before \<^verbatim>\<open>_get_tile\<close> forms the key. For two virtual paths
  whose groups differ only in leading zeros of those fields: both resolve to the key
  formed from the integers; on either path each of the three operations is the call of
  \<^verbatim>\<open>_get_tile\<close> with those integers, followed by \<^verbatim>\<open>refs += 1\<close>, by
  \<^verbatim>\<open>read_dds_bytes\<close> or by \<^verbatim>\<open>refs -= 1\<close> on the handle it returns, which is the
  handle stored under that key; an \<^verbatim>\<open>open\<close> of one path followed by a \<^verbatim>\<open>read\<close> and
  a \<^verbatim>\<open>release\<close> of the other counts, reads and releases one and the same handle and
  leaves its count as it was; and opening both paths counts two references on one
  handle, constructing at most one tile.
\<close>

theorem leading_zeros_same_tile:
  assumes "dds_match p1 =
             Some (replicate a1 CHR ''0'' @ row, replicate a2 CHR ''0'' @ col, maptype,
                   replicate a3 CHR ''0'' @ zoom)"
    and "dds_match p2 =
             Some (replicate b1 CHR ''0'' @ row, replicate b2 CHR ''0'' @ col, maptype,
                   replicate b3 CHR ''0'' @ zoom)"
  shows "path_key s p1 = path_key s p2
       \<and> ao_open os p1 = ao_open os p2
       \<and> ao_read os p1 = ao_read os p2
       \<and> ao_release os p1 = ao_release os p2
       \<and> refcount (tc (fst (last (run_calls os [OpenCall p1 f1, OpenCall p2 f2] (ao, h)))))
             (tile_idx (py_int row) (py_int col) (effective_maptype (tc ao) maptype) (py_int zoom))
           = refcount (tc ao)
               (tile_idx (py_int row) (py_int col) (effective_maptype (tc ao) maptype) (py_int zoom)) + 2
       \<and> allocated (tc (fst (last (run_calls os [OpenCall p1 f1, OpenCall p2 f2] (ao, h)))))
           \<le> Suc (allocated (tc ao))
       \<and> path_key s p1 =
           Some (tile_idx (py_int row) (py_int col) (effective_maptype s maptype) (py_int zoom))
       \<and> ao_open os p1 flags (ao, h) =
           (case get_tile (py_int row) (py_int col) maptype (py_int zoom) (tc ao) of
              (t, s') \<Rightarrow> Inr (0, ao\<lparr>tc := add_refs t 1 s'\<rparr>, h))
       \<and> ao_read os p1 len offset fh (ao, h) =
           (case get_tile (py_int row) (py_int col) maptype (py_int zoom) (tc ao) of
              (t, s') \<Rightarrow> Inr (read_dds_bytes os (heap s' t) offset len, ao\<lparr>tc := s'\<rparr>, h))
       \<and> ao_release os p1 fh (ao, h) =
           (case get_tile (py_int row) (py_int col) maptype (py_int zoom) (tc ao) of
              (t, s') \<Rightarrow> Inr (0, ao\<lparr>tc := add_refs t (- 1) s'\<rparr>, h))
       \<and> (case get_tile (py_int row) (py_int col) maptype (py_int zoom) (tc ao) of
            (t, s') \<Rightarrow>
              map_of (tiles s')
                (tile_idx (py_int row) (py_int col) (effective_maptype (tc ao) maptype) (py_int zoom))
              = Some t)
       \<and> (\<exists>t ao1 ao2 ao3.
            ao_open os p1 flags (ao, h) = Inr (0, ao1, h)
            \<and> map_of (tiles (tc ao1))
                (tile_idx (py_int row) (py_int col) (effective_maptype (tc ao) maptype) (py_int zoom))
              = Some t
            \<and> refs (heap (tc ao1) t) =
                refcount (tc ao)
                  (tile_idx (py_int row) (py_int col) (effective_maptype (tc ao) maptype) (py_int zoom)) + 1
            \<and> ao_read os p2 len offset fh (ao1, h) =
                Inr (read_dds_bytes os (heap (tc ao1) t) offset len, ao2, h)
            \<and> tiles (tc ao2) = tiles (tc ao1) \<and> heap (tc ao2) = heap (tc ao1)
            \<and> ao_release os p2 fh (ao2, h) = Inr (0, ao3, h)
            \<and> tiles (tc ao3) = tiles (tc ao1)
            \<and> refs (heap (tc ao3) t) =
                refcount (tc ao)
                  (tile_idx (py_int row) (py_int col) (effective_maptype (tc ao) maptype) (py_int zoom))
            \<and> allocated (tc ao3) \<le> Suc (allocated (tc ao)))"
proof -
  let ?idx = "tile_idx (py_int row) (py_int col) (effective_maptype (tc ao) maptype) (py_int zoom)"
  have k: "path_key s p1 = path_key s p2" for s
    by (simp add: path_key_def assms py_int_leading_zeros)
  have o: "ao_open os p1 = ao_open os p2"
    by (intro ext) (simp add: ao_open_def assms py_int_leading_zeros)
  have r: "ao_read os p1 = ao_read os p2"
    by (intro ext) (simp add: ao_read_def assms py_int_leading_zeros)
  have l: "ao_release os p1 = ao_release os p2"
    by (intro ext) (simp add: ao_release_def assms py_int_leading_zeros)
  have k0: "path_key s p1 =
           Some (tile_idx (py_int row) (py_int col) (effective_maptype s maptype) (py_int zoom))"
    by (simp add: path_key_def assms py_int_leading_zeros)
  have k1: "path_key (tc ao) p1 = Some ?idx"
    by (simp add: path_key_def assms py_int_leading_zeros)
  have ks: "\<forall>c \<in> set [OpenCall p1 f1, OpenCall p2 f2]. path_key (tc ao) (call_path c) = Some ?idx"
    using k1 k [of "tc ao"] by (simp add: call_path_def)
  from do_call_refcount [of ao "OpenCall p1 f1" ?idx os h] k1
  obtain ao1 where d1: "do_call os (OpenCall p1 f1) (ao, h) = Inr (ao1, h)"
    and ov1: "maptype_override (tc ao1) = maptype_override (tc ao)"
    and rc1: "refcount (tc ao1) ?idx = refcount (tc ao) ?idx + 1"
    by (auto simp: call_path_def)
  have k2: "path_key (tc ao1) p2 = Some ?idx"
    using k1 k [of "tc ao"] path_key_override [OF ov1] by simp
  from do_call_refcount [of ao1 "OpenCall p2 f2" ?idx os h] k2
  obtain ao2 where d2: "do_call os (OpenCall p2 f2) (ao1, h) = Inr (ao2, h)"
    and rc2: "refcount (tc ao2) ?idx = refcount (tc ao1) ?idx + 1"
    by (auto simp: call_path_def)
  have run: "last (run_calls os [OpenCall p1 f1, OpenCall p2 f2] (ao, h)) = (ao2, h)"
    by (simp add: d1 d2)
  have rc: "refcount (tc ao2) ?idx = refcount (tc ao) ?idx + 2"
    using rc1 rc2 by simp
  have e1: "tc ao1 = add_refs (fst (get_tile (py_int row) (py_int col) maptype (py_int zoom) (tc ao))) 1
                       (snd (get_tile (py_int row) (py_int col) maptype (py_int zoom) (tc ao)))"
    using d1 by (auto simp: do_call_def ao_open_def assms py_int_leading_zeros split: prod.splits)
  have e2: "tc ao2 = add_refs (fst (get_tile (py_int row) (py_int col) maptype (py_int zoom) (tc ao1))) 1
                       (snd (get_tile (py_int row) (py_int col) maptype (py_int zoom) (tc ao1)))"
    using d2 by (auto simp: do_call_def ao_open_def assms py_int_leading_zeros split: prod.splits)
  have a1: "allocated (tc ao1) \<le> Suc (allocated (tc ao))"
    unfolding e1 using get_tile_allocated [of "py_int row" "py_int col" maptype "py_int zoom" "tc ao"]
    by (simp add: add_refs_def)
  have in1: "map_of (tiles (tc ao1)) (tile_idx (py_int row) (py_int col) (effective_maptype (tc ao1) maptype) (py_int zoom)) \<noteq> None"
  proof -
    obtain t s' where g: "get_tile (py_int row) (py_int col) maptype (py_int zoom) (tc ao) = (t, s')"
      by (cases "get_tile (py_int row) (py_int col) maptype (py_int zoom) (tc ao)")
    have "effective_maptype (tc ao1) maptype = effective_maptype (tc ao) maptype"
      using ov1 by (simp add: effective_maptype_def)
    then show ?thesis
      unfolding e1 using get_tile_refcount [OF g] g by (simp add: add_refs_def)
  qed
  have a2: "allocated (tc ao2) = allocated (tc ao1)"
    unfolding e2 using get_tile_allocated [of "py_int row" "py_int col" maptype "py_int zoom" "tc ao1"] in1
    by (simp add: add_refs_def)
  have po: "ao_open os p1 flags (ao, h) =
           (case get_tile (py_int row) (py_int col) maptype (py_int zoom) (tc ao) of
              (t, s') \<Rightarrow> Inr (0, ao\<lparr>tc := add_refs t 1 s'\<rparr>, h))"
    by (simp add: ao_open_def assms py_int_leading_zeros)
  have pr: "ao_read os p len offset fh (x, h) =
           (case get_tile (py_int row) (py_int col) maptype (py_int zoom) (tc x) of
              (t, s') \<Rightarrow> Inr (read_dds_bytes os (heap s' t) offset len, x\<lparr>tc := s'\<rparr>, h))"
    if "p = p1 \<or> p = p2" for p x
    using that by (auto simp: ao_read_def assms py_int_leading_zeros)
  have pl: "ao_release os p fh (x, h) =
           (case get_tile (py_int row) (py_int col) maptype (py_int zoom) (tc x) of
              (t, s') \<Rightarrow> Inr (0, x\<lparr>tc := add_refs t (- 1) s'\<rparr>, h))"
    if "p = p1 \<or> p = p2" for p x
    using that by (auto simp: ao_release_def assms py_int_leading_zeros)
  obtain t s1 where g: "get_tile (py_int row) (py_int col) maptype (py_int zoom) (tc ao) = (t, s1)"
    by (cases "get_tile (py_int row) (py_int col) maptype (py_int zoom) (tc ao)")
  note g1 = get_tile_refcount [OF g]
  have st: "case get_tile (py_int row) (py_int col) maptype (py_int zoom) (tc ao) of
            (t, s') \<Rightarrow> map_of (tiles s') ?idx = Some t"
    using g1 by (simp add: g)
  let ?c1 = "add_refs t 1 s1"
  let ?ao1 = "ao\<lparr>tc := ?c1\<rparr>"
  have o1: "ao_open os p1 flags (ao, h) = Inr (0, ?ao1, h)"
    by (simp add: po g)
  have m1: "map_of (tiles ?c1) ?idx = Some t"
    using g1 by (simp add: add_refs_def)
  have f1: "refs (heap ?c1 t) = refcount (tc ao) ?idx + 1"
    using g1 by (simp add: add_refs_def)
  have ov: "maptype_override ?c1 = maptype_override (tc ao)"
    using g1 by simp
  have m1': "map_of (tiles ?c1) (tile_idx (py_int row) (py_int col) (effective_maptype ?c1 maptype) (py_int zoom)) = Some t"
    using m1 unfolding effective_maptype_override [OF ov] .
  from get_tile_present [OF m1'] obtain s2 where
    g2: "get_tile (py_int row) (py_int col) maptype (py_int zoom) ?c1 = (t, s2)"
    and t2: "tiles s2 = tiles ?c1" and h2: "heap s2 = heap ?c1"
    and l2: "allocated s2 = allocated ?c1" and ov2: "maptype_override s2 = maptype_override ?c1"
    by blast
  let ?ao2 = "?ao1\<lparr>tc := s2\<rparr>"
  have r2: "ao_read os p2 len offset fh (?ao1, h) =
              Inr (read_dds_bytes os (heap (tc ?ao1) t) offset len, ?ao2, h)"
    using pr [of p2 ?ao1] by (simp add: g2 h2)
  have m2': "map_of (tiles s2) (tile_idx (py_int row) (py_int col) (effective_maptype s2 maptype) (py_int zoom)) = Some t"
    using m1' unfolding t2 effective_maptype_override [OF ov2] .
  from get_tile_present [OF m2'] obtain s3 where
    g3: "get_tile (py_int row) (py_int col) maptype (py_int zoom) s2 = (t, s3)"
    and t3: "tiles s3 = tiles s2" and h3: "heap s3 = heap s2"
    and l3: "allocated s3 = allocated s2"
    by blast
  let ?ao3 = "?ao2\<lparr>tc := add_refs t (- 1) s3\<rparr>"
  have r3: "ao_release os p2 fh (?ao2, h) = Inr (0, ?ao3, h)"
    using pl [of p2 ?ao2] by (simp add: g3)
  have t3': "tiles (tc ?ao3) = tiles (tc ?ao1)"
    by (simp add: add_refs_def t3 t2)
  have f3: "refs (heap (tc ?ao3) t) = refcount (tc ao) ?idx"
    using f1 by (simp add: add_refs_def h3 h2)
  have l1: "allocated s1 \<le> Suc (allocated (tc ao))"
    using get_tile_allocated [of "py_int row" "py_int col" maptype "py_int zoom" "tc ao"]
    by (simp add: g)
  have a3: "allocated (tc ?ao3) \<le> Suc (allocated (tc ao))"
    using l1 by (simp add: add_refs_def l3 l2)
  have sc: "\<exists>t ao1 ao2 ao3.
            ao_open os p1 flags (ao, h) = Inr (0, ao1, h)
            \<and> map_of (tiles (tc ao1)) ?idx = Some t
            \<and> refs (heap (tc ao1) t) = refcount (tc ao) ?idx + 1
            \<and> ao_read os p2 len offset fh (ao1, h) =
                Inr (read_dds_bytes os (heap (tc ao1) t) offset len, ao2, h)
            \<and> tiles (tc ao2) = tiles (tc ao1) \<and> heap (tc ao2) = heap (tc ao1)
            \<and> ao_release os p2 fh (ao2, h) = Inr (0, ao3, h)
            \<and> tiles (tc ao3) = tiles (tc ao1)
            \<and> refs (heap (tc ao3) t) = refcount (tc ao) ?idx
            \<and> allocated (tc ao3) \<le> Suc (allocated (tc ao))"
  proof (intro exI conjI)
    show "ao_open os p1 flags (ao, h) = Inr (0, ?ao1, h)" by (rule o1)
    show "map_of (tiles (tc ?ao1)) ?idx = Some t" using m1 by simp
    show "refs (heap (tc ?ao1) t) = refcount (tc ao) ?idx + 1" using f1 by simp
    show "ao_read os p2 len offset fh (?ao1, h) =
                Inr (read_dds_bytes os (heap (tc ?ao1) t) offset len, ?ao2, h)" by (rule r2)
    show "tiles (tc ?ao2) = tiles (tc ?ao1)" by (simp add: t2)
    show "heap (tc ?ao2) = heap (tc ?ao1)" by (simp add: h2)
    show "ao_release os p2 fh (?ao2, h) = Inr (0, ?ao3, h)" by (rule r3)
    show "tiles (tc ?ao3) = tiles (tc ?ao1)" by (rule t3')
    show "refs (heap (tc ?ao3) t) = refcount (tc ao) ?idx" by (rule f3)
    show "allocated (tc ?ao3) \<le> Suc (allocated (tc ao))" by (rule a3)
  qed
  have rcf: "refcount (tc (fst (last (run_calls os [OpenCall p1 f1, OpenCall p2 f2] (ao, h))))) ?idx
           = refcount (tc ao) ?idx + 2"
    unfolding run using rc by simp
  have alf: "allocated (tc (fst (last (run_calls os [OpenCall p1 f1, OpenCall p2 f2] (ao, h)))))
           \<le> Suc (allocated (tc ao))"
    unfolding run using a1 a2 by simp
  show ?thesis
    by (intro conjI k o r l rcf alf k0 po pr [of p1 ao] pl [of p1 ao] st sc) simp_all
qed

theorem leading_zeros_same_tile_witness:
  "dds_match ''/0123_456_BI16.dds'' = Some (''0123'', ''456'', ''BI'', ''16'')
   \<and> dds_match ''/123_456_BI16.dds'' = Some (''123'', ''456'', ''BI'', ''16'')
   \<and> path_key (new_tile_cacher ''.cache'' None) ''/0123_456_BI16.dds'' = Some ''123_456_BI_16''
   \<and> path_key (new_tile_cacher ''.cache'' None) ''/123_456_BI16.dds'' = Some ''123_456_BI_16''
   \<and> ao_open empty_host ''/0123_456_BI16.dds'' = ao_open empty_host ''/123_456_BI16.dds''
   \<and> ao_read empty_host ''/0123_456_BI16.dds'' = ao_read empty_host ''/123_456_BI16.dds''
   \<and> ao_release empty_host ''/0123_456_BI16.dds'' = ao_release empty_host ''/123_456_BI16.dds''
   \<and> refcount (tc (fst (last (run_calls empty_host
          [OpenCall ''/0123_456_BI16.dds'' 0, OpenCall ''/123_456_BI16.dds'' 0]
          (new_autoortho ''./testfiles'' ''.cache'' None, ())))))
        ''123_456_BI_16'' = 2
   \<and> ao_read empty_host ''/0123_456_BI16.dds'' 128 0 0
        (new_autoortho ''./testfiles'' ''.cache'' None, ()) =
      (case get_tile 123 456 ''BI'' 16 (new_tile_cacher ''.cache'' None) of
         (t, s') \<Rightarrow>
           Inr (read_dds_bytes empty_host (heap s' t) 0 128,
                (new_autoortho ''./testfiles'' ''.cache'' None)\<lparr>tc := s'\<rparr>, ()))"
proof -
  have m1: "dds_match ''/0123_456_BI16.dds'' =
      Some (replicate 1 CHR ''0'' @ ''123'', replicate 0 CHR ''0'' @ ''456'', ''BI'',
            replicate 0 CHR ''0'' @ ''16'')"
    by (simp add: dds_match_def dds_re_def is_digit_def)
  have m2: "dds_match ''/123_456_BI16.dds'' =
      Some (replicate 0 CHR ''0'' @ ''123'', replicate 0 CHR ''0'' @ ''456'', ''BI'',
            replicate 0 CHR ''0'' @ ''16'')"
    by (simp add: dds_match_def dds_re_def is_digit_def)
  have i: "py_int ''123'' = 123" "py_int ''456'' = 456" "py_int ''16'' = 16"
    by (simp_all add: py_int_def digit_val_def)
  have x: "tile_idx 123 456 (effective_maptype (new_tile_cacher ''.cache'' None) ''BI'') 16
             = ''123_456_BI_16''"
    by (simp add: new_tile_cacher_def effective_maptype_def tile_idx_def py_str_def
          str_nat.simps digit_char_def)
  have c: "tc (new_autoortho ''./testfiles'' ''.cache'' None) = new_tile_cacher ''.cache'' None"
    by (simp add: new_autoortho_def)
  have z: "refcount (new_tile_cacher ''.cache'' None) ''123_456_BI_16'' = 0"
    by (simp add: refcount_def new_tile_cacher_def)
  note t = leading_zeros_same_tile [OF m1 m2, of "new_tile_cacher ''.cache'' None" empty_host
      0 0 "new_autoortho ''./testfiles'' ''.cache'' None" "()" 0 128 0 0, unfolded i c x z]
  have k1: "path_key (new_tile_cacher ''.cache'' None) ''/0123_456_BI16.dds'' = Some ''123_456_BI_16''"
    using t by blast
  have k2: "path_key (new_tile_cacher ''.cache'' None) ''/123_456_BI16.dds'' = Some ''123_456_BI_16''"
    using t k1 by simp
  have o: "ao_open empty_host ''/0123_456_BI16.dds'' = ao_open empty_host ''/123_456_BI16.dds''"
    using t by blast
  have r: "ao_read empty_host ''/0123_456_BI16.dds'' = ao_read empty_host ''/123_456_BI16.dds''"
    using t by blast
  have l: "ao_release empty_host ''/0123_456_BI16.dds'' = ao_release empty_host ''/123_456_BI16.dds''"
    using t by blast
  have n: "refcount (tc (fst (last (run_calls empty_host
          [OpenCall ''/0123_456_BI16.dds'' 0, OpenCall ''/123_456_BI16.dds'' 0]
          (new_autoortho ''./testfiles'' ''.cache'' None, ())))))
        ''123_456_BI_16'' = 2"
    using t by simp
  have d: "ao_read empty_host ''/0123_456_BI16.dds'' 128 0 0
        (new_autoortho ''./testfiles'' ''.cache'' None, ()) =
      (case get_tile 123 456 ''BI'' 16 (new_tile_cacher ''.cache'' None) of
         (t, s') \<Rightarrow>
           Inr (read_dds_bytes empty_host (heap s' t) 0 128,
                (new_autoortho ''./testfiles'' ''.cache'' None)\<lparr>tc := s'\<rparr>, ()))"
    using t by blast
  show ?thesis
    using m1 m2 k1 k2 o r l n d by (intro conjI) simp_all
qed

section \<open>Properties of the path classifier\<close>

subsection \<open>Backtracking over a descending range of lengths\<close>

lemma first_some_None: "(\<And>n. n \<in> set ns \<Longrightarrow> f n = None) \<Longrightarrow> first_some f ns = None"
  by (induction ns) auto

lemma first_some_SomeD: "first_some f ns = Some y \<Longrightarrow> \<exists>n \<in> set ns. f n = Some y"
  by (induction ns) (auto split: option.splits)

lemma rev_upt_Suc: "lo \<le> hi \<Longrightarrow> rev [lo ..< Suc hi] = hi # rev [lo ..< hi]"
  by simp

lemma first_some_top:
  assumes "\<And>n. lo \<le> n \<Longrightarrow> n < hi \<Longrightarrow> f n = None"
  shows "first_some f (rev [lo ..< Suc hi]) = (if lo \<le> hi then f hi else None)"
proof (cases "lo \<le> hi")
  case True
  have "first_some f (rev [lo ..< hi]) = None"
    using assms by (intro first_some_None) auto
  then show ?thesis using True by (simp split: option.splits)
next
  case False
  then show ?thesis by simp
qed

lemma first_some_desc:
  assumes "lo \<le> k" and "k \<le> hi" and "f k = Some y"
    and "\<And>n. k < n \<Longrightarrow> n \<le> hi \<Longrightarrow> f n = None"
  shows "first_some f (rev [lo ..< Suc hi]) = Some y"
  using assms(2,4)
proof (induction hi)
  case 0
  then show ?case using assms(1,3) by simp
next
  case (Suc hi)
  show ?case
  proof (cases "k = Suc hi")
    case True
    then show ?thesis using assms(1,3) by simp
  next
    case False
    then have kh: "k \<le> hi" using Suc.prems(1) by simp
    have "f (Suc hi) = None" using Suc.prems(2) [of "Suc hi"] kh by simp
    moreover have "first_some f (rev [lo ..< Suc hi]) = Some y"
      using Suc.IH [OF kh] Suc.prems(2) by simp
    moreover have "lo \<le> Suc hi" using assms(1) kh by simp
    ultimately show ?thesis by simp
  qed
qed

lemma drop_run: "drop (length (takeWhile P s)) s = dropWhile P s"
  by (simp add: dropWhile_eq_drop)

lemma take_run: "take (length s - length (dropWhile P s)) s = takeWhile P s"
proof -
  have "length s = length (takeWhile P s) + length (dropWhile P s)"
    by (metis length_append takeWhile_dropWhile_id)
  then have "length s - length (dropWhile P s) = length (takeWhile P s)"
    by simp
  then show ?thesis
    by (metis takeWhile_eq_take)
qed

lemma drop_in_run:
  assumes "n < length (takeWhile P s)"
  shows "\<exists>x xs. drop n s = x # xs \<and> P x"
proof -
  have n: "n < length s" using assms length_takeWhile_le [of P s] by (rule less_le_trans)
  have "P (s ! n)" using assms by (metis nth_length_takeWhile nth_mem set_takeWhileD takeWhile_nth)
  then show ?thesis using Cons_nth_drop_Suc [OF n] by metis
qed

lemma in_class_Digit: "in_class Digit = is_digit"
  by (rule ext) simp

lemma in_class_NonDigit: "in_class NonDigit = (\<lambda>c. \<not> is_digit c)"
  by (rule ext) simp

lemma in_class_Dot: "in_class Dot = (\<lambda>c. c \<noteq> CHR 0x0A)"
  by (rule ext) simp

text \<open>A group of digits followed by a separator: only the whole run of digits can match.\<close>

lemma rmatch_digits_sep:
  "rmatch (GOpen # Plus Digit # GClose # One (OneOf ''-_'') # r) s g caps =
     (case dropWhile is_digit s of
        [] \<Rightarrow> None
      | x # xs \<Rightarrow>
          if takeWhile is_digit s \<noteq> [] \<and> x \<in> set ''-_''
          then rmatch r xs s (caps @ [takeWhile is_digit s]) else None)"
proof -
  let ?f = "\<lambda>n. case drop n s of
                  [] \<Rightarrow> None
                | x # xs \<Rightarrow>
                    if in_class (OneOf ''-_'') x
                    then rmatch r xs s (caps @ [take (length s - length (drop n s)) s])
                    else None"
  let ?L = "length (takeWhile is_digit s)"
  have low: "?f n = None" if "lo \<le> n" and "n < ?L" for n lo :: nat
  proof -
    from drop_in_run [OF that(2)] obtain x xs where "drop n s = x # xs" "is_digit x" by auto
    then show ?thesis by (auto simp: is_digit_def)
  qed
  have "rmatch (GOpen # Plus Digit # GClose # One (OneOf ''-_'') # r) s g caps
        = first_some ?f (rev [1 ..< Suc ?L])"
    by (simp only: rmatch.simps item.case in_class_Digit)
  also have "\<dots> = (if 1 \<le> ?L then ?f ?L else None)"
    by (rule first_some_top) (rule low)
  also have "\<dots> = (case dropWhile is_digit s of
        [] \<Rightarrow> None
      | x # xs \<Rightarrow>
          if takeWhile is_digit s \<noteq> [] \<and> x \<in> set ''-_''
          then rmatch r xs s (caps @ [takeWhile is_digit s]) else None)"
  proof (cases "dropWhile is_digit s")
    case Nil
    then show ?thesis by (simp only: drop_run list.case if_cancel)
  next
    case (Cons x xs)
    have t: "take (length s - length (x # xs)) s = takeWhile is_digit s"
      using take_run [of s is_digit] Cons by simp
    have l: "1 \<le> ?L \<longleftrightarrow> takeWhile is_digit s \<noteq> []"
      by (cases "takeWhile is_digit s") simp_all
    show ?thesis
      unfolding drop_run Cons list.case t l by simp
  qed
  finally show ?thesis .
qed

lemma rmatch_group_star:
  "rmatch (GOpen # NotAhead w # Star cl # GClose # k) s g caps =
     (if prefix w s then None
      else first_some
             (\<lambda>n. rmatch k (drop n s) s (caps @ [take (length s - length (drop n s)) s]))
             (rev [0 ..< Suc (length (takeWhile (in_class cl) s))]))"
  by (simp only: rmatch.simps item.case)

lemma rmatch_group_plus:
  "rmatch (GOpen # Plus cl # GClose # k) s g caps =
     first_some
       (\<lambda>n. rmatch k (drop n s) s (caps @ [take (length s - length (drop n s)) s]))
       (rev [1 ..< Suc (length (takeWhile (in_class cl) s))])"
  by (simp only: rmatch.simps item.case)

lemma rmatch_plus_no_run:
  assumes "s = [] \<or> \<not> in_class cl (hd s)"
  shows "rmatch (GOpen # Plus cl # k) s g caps = None"
proof -
  have "takeWhile (in_class cl) s = []"
    using assms by (cases s) auto
  then show ?thesis by simp
qed

text \<open>
  The map-type group before the zoom digits: only the whole run of non-digits can match,
  and the lookahead is tested where the group starts.
\<close>

lemma rmatch_maptype:
  "rmatch (GOpen # NotAhead w # Star NonDigit # GClose # GOpen # Plus Digit # r) s g caps =
     (if prefix w s then None
      else rmatch (GOpen # Plus Digit # r) (dropWhile (\<lambda>c. \<not> is_digit c) s) s
             (caps @ [takeWhile (\<lambda>c. \<not> is_digit c) s]))"
proof -
  let ?k = "GOpen # Plus Digit # r"
  let ?f = "\<lambda>n. rmatch ?k (drop n s) s (caps @ [take (length s - length (drop n s)) s])"
  let ?L = "length (takeWhile (\<lambda>c. \<not> is_digit c) s)"
  have low: "?f n = None" if "0 \<le> n" and "n < ?L" for n
  proof -
    from drop_in_run [OF that(2)] obtain x xs where d: "drop n s = x # xs" and "\<not> is_digit x" by auto
    then have "drop n s = [] \<or> \<not> in_class Digit (hd (drop n s))" by simp
    then show ?thesis by (rule rmatch_plus_no_run)
  qed
  have "first_some ?f (rev [0 ..< Suc ?L]) = (if 0 \<le> ?L then ?f ?L else None)"
    by (rule first_some_top) (rule low)
  then have top: "first_some ?f (rev [0 ..< Suc ?L]) = ?f ?L"
    by (simp only: le0 if_True)
  have t: "take (length s - length (dropWhile (\<lambda>c. \<not> is_digit c) s)) s
            = takeWhile (\<lambda>c. \<not> is_digit c) s"
    by (rule take_run)
  show ?thesis
    unfolding rmatch_group_star in_class_NonDigit top drop_run t ..
qed

lemma rmatch_ext:
  "rmatch [One Dot, Lit CHR ''d'', Lit CHR ''d'', Lit CHR ''s''] u g caps =
     (if \<exists>c rest. u = c # ''dds'' @ rest \<and> c \<noteq> CHR 0x0A then Some caps else None)"
proof (cases u)
  case Nil
  then show ?thesis by simp
next
  case u1: (Cons c u1)
  show ?thesis
  proof (cases u1)
    case Nil
    then show ?thesis using u1 by simp
  next
    case u2: (Cons c2 u2)
    show ?thesis
    proof (cases u2)
      case Nil
      then show ?thesis using u1 u2 by simp
    next
      case u3: (Cons c3 u3)
      show ?thesis
      proof (cases u3)
        case Nil
        then show ?thesis using u1 u2 u3 by simp
      next
        case (Cons c4 u4)
        then show ?thesis using u1 u2 u3 by auto
      qed
    qed
  qed
qed

text \<open>The zoom group and the extension: the candidates are the prefixes of the run of digits, longest first.\<close>

lemma rmatch_zoom:
  "rmatch [GOpen, Plus Digit, GClose, One Dot, Lit CHR ''d'', Lit CHR ''d'', Lit CHR ''s''] s g caps =
     first_some
       (\<lambda>n. if \<exists>c rest. drop n s = c # ''dds'' @ rest \<and> c \<noteq> CHR 0x0A
            then Some (caps @ [take n s]) else None)
       (rev [1 ..< Suc (length (takeWhile is_digit s))])"
proof -
  have tk: "take (length s - length (drop n s)) s = take n s" for n
    by (cases "n \<le> length s") simp_all
  show ?thesis
    unfolding rmatch_group_plus rmatch_ext in_class_Digit tk ..
qed

lemma dds_name_re_items:
  "dds_name_re =
     [GOpen, Plus Digit, GClose, One (OneOf ''-_''),
      GOpen, Plus Digit, GClose, One (OneOf ''-_''),
      GOpen, NotAhead ''ZL'', Star NonDigit, GClose,
      GOpen, Plus Digit, GClose,
      One Dot, Lit CHR ''d'', Lit CHR ''d'', Lit CHR ''s'']"
  by (simp add: dds_name_re_def dds_re_def)

lemma dds_re_split: "dds_re = Star Dot # Lit CHR ''/'' # dds_name_re"
  by (simp add: dds_name_re_def dds_re_def)

text \<open>
  What the backtracking matcher computes on a name: the row and column are the whole
  runs of digits before the separators, the map type is the whole run of non-digits,
  and the zoom is the longest prefix of the following digits after which one character
  other than a newline and then \<^verbatim>\<open>dds\<close> follow.
\<close>

lemma rmatch_name:
  "rmatch dds_name_re t g caps =
     (case dropWhile is_digit t of
        [] \<Rightarrow> None
      | s1 # t2 \<Rightarrow>
          if takeWhile is_digit t \<noteq> [] \<and> s1 \<in> set ''-_'' then
            (case dropWhile is_digit t2 of
               [] \<Rightarrow> None
             | s2 # t4 \<Rightarrow>
                 if takeWhile is_digit t2 \<noteq> [] \<and> s2 \<in> set ''-_'' then
                   if prefix ''ZL'' t4 then None
                   else
                     first_some
                       (\<lambda>n. if \<exists>c rest. drop n (dropWhile (\<lambda>c. \<not> is_digit c) t4) = c # ''dds'' @ rest
                                   \<and> c \<noteq> CHR 0x0A
                            then Some (caps @ [takeWhile is_digit t, takeWhile is_digit t2,
                                         takeWhile (\<lambda>c. \<not> is_digit c) t4,
                                         take n (dropWhile (\<lambda>c. \<not> is_digit c) t4)])
                            else None)
                       (rev [1 ..< Suc (length (takeWhile is_digit (dropWhile (\<lambda>c. \<not> is_digit c) t4)))])
                 else None)
          else None)"
  by (simp only: dds_name_re_items rmatch_digits_sep rmatch_maptype rmatch_zoom
        append_assoc append_Cons append_Nil)

lemma rmatch_star_lit:
  "rmatch (Star cl # Lit c # k) s g caps =
     first_some
       (\<lambda>n. case drop n s of [] \<Rightarrow> None | x # xs \<Rightarrow> if x = c then rmatch k xs g caps else None)
       (rev [0 ..< Suc (length (takeWhile (in_class cl) s))])"
  by (simp only: rmatch.simps item.case)

lemma rmatch_dds:
  "rmatch dds_re p g caps =
     first_some
       (\<lambda>n. case drop n p of
               [] \<Rightarrow> None
             | x # t \<Rightarrow> if x = CHR ''/'' then rmatch dds_name_re t g caps else None)
       (rev [0 ..< Suc (length (takeWhile (\<lambda>c. c \<noteq> CHR 0x0A) p))])"
  unfolding dds_re_split rmatch_star_lit in_class_Dot ..

lemma not_digit_sep: "x \<in> set ''-_'' \<Longrightarrow> \<not> is_digit x"
  by (auto simp: is_digit_def)

lemma lookahead_maptype:
  assumes "\<forall>c \<in> set mt. \<not> is_digit c" and "zoom \<noteq> []" and "\<forall>c \<in> set zoom. is_digit c"
  shows "prefix ''ZL'' (mt @ zoom @ rest) \<longleftrightarrow> prefix ''ZL'' mt"
proof (cases mt)
  case Nil
  obtain z zs where z: "zoom = z # zs" using assms(2) by (cases zoom) auto
  then have "is_digit z" using assms(3) by simp
  then have "z \<noteq> CHR ''Z''" by (auto simp: is_digit_def)
  then show ?thesis using Nil z by simp
next
  case m1: (Cons a m1)
  show ?thesis
  proof (cases m1)
    case Nil
    obtain z zs where z: "zoom = z # zs" using assms(2) by (cases zoom) auto
    then have "is_digit z" using assms(3) by simp
    then have "z \<noteq> CHR ''L''" by (auto simp: is_digit_def)
    then show ?thesis using Nil m1 z by simp
  next
    case (Cons b m2)
    then show ?thesis using m1 by simp
  qed
qed

lemma zoom_ext:
  assumes "zoom \<noteq> []" and "\<forall>c \<in> set zoom. is_digit c"
  shows "first_some
           (\<lambda>n. if \<exists>c rest. drop n (zoom @ ''.dds'') = c # ''dds'' @ rest \<and> c \<noteq> CHR 0x0A
                then Some (F (take n (zoom @ ''.dds''))) else None)
           (rev [1 ..< Suc (length (takeWhile is_digit (zoom @ ''.dds'')))])
         = Some (F zoom)"
proof -
  have tw: "takeWhile is_digit (zoom @ ''.dds'') = zoom"
    using assms(2) by (simp add: is_digit_def)
  have l: "1 \<le> length zoom" using assms(1) by (cases zoom) simp_all
  show ?thesis
    unfolding tw using l by (simp add: rev_upt_Suc del: upt_Suc)
qed

text \<open>A well-formed name: accepted unless the map type begins with \<^verbatim>\<open>ZL\<close>.\<close>

lemma rmatch_name_wellformed:
  assumes "row \<noteq> []" and "\<forall>c \<in> set row. is_digit c"
    and "col \<noteq> []" and "\<forall>c \<in> set col. is_digit c"
    and "zoom \<noteq> []" and "\<forall>c \<in> set zoom. is_digit c"
    and "\<forall>c \<in> set mt. \<not> is_digit c"
    and "s1 \<in> set ''-_''" and "s2 \<in> set ''-_''"
  shows "rmatch dds_name_re (row @ s1 # col @ s2 # mt @ zoom @ ''.dds'') g caps =
           (if prefix ''ZL'' mt then None else Some (caps @ [row, col, mt, zoom]))"
proof -
  have n1: "\<not> is_digit s1" and n2: "\<not> is_digit s2"
    using assms(8,9) by (simp_all add: not_digit_sep)
  have t1: "takeWhile is_digit (row @ s1 # col @ s2 # mt @ zoom @ ''.dds'') = row"
    and d1: "dropWhile is_digit (row @ s1 # col @ s2 # mt @ zoom @ ''.dds'')
               = s1 # col @ s2 # mt @ zoom @ ''.dds''"
    using assms(2) n1 by simp_all
  have t2: "takeWhile is_digit (col @ s2 # mt @ zoom @ ''.dds'') = col"
    and d2: "dropWhile is_digit (col @ s2 # mt @ zoom @ ''.dds'') = s2 # mt @ zoom @ ''.dds''"
    using assms(4) n2 by simp_all
  obtain z zs where z: "zoom = z # zs" using assms(5) by (cases zoom) auto
  then have dz: "is_digit z" using assms(6) by simp
  have t3: "takeWhile (\<lambda>c. \<not> is_digit c) (mt @ zoom @ ''.dds'') = mt"
    and d3: "dropWhile (\<lambda>c. \<not> is_digit c) (mt @ zoom @ ''.dds'') = zoom @ ''.dds''"
    using assms(7) dz z by simp_all
  note la = lookahead_maptype [OF assms(7,5,6), of "''.dds''"]
  note ze = zoom_ext [OF assms(5,6), of "\<lambda>x. caps @ [row, col, mt, x]"]
  show ?thesis
    unfolding rmatch_name t1 d1 t2 d2 list.case t3 d3 la ze
    using assms(1,3,8,9) by simp
qed

text \<open>A name cannot be matched from a slash inside it.\<close>

lemma drop_in_middle:
  assumes "drop j (M @ Z) = c # t" and "c \<notin> set Z"
  shows "\<exists>m2. t = m2 @ Z \<and> set m2 \<subseteq> set M"
proof (cases "j < length M")
  case True
  then have "drop j M @ Z = c # t" using assms(1) by simp
  moreover have "drop j M \<noteq> []" using True by simp
  ultimately obtain m2 where m2: "drop j M = c # m2" "t = m2 @ Z"
    by (cases "drop j M") auto
  have "set m2 \<subseteq> set (drop j M)" using m2(1) by auto
  then have "set m2 \<subseteq> set M" using set_drop_subset [of j M] by blast
  then show ?thesis using m2(2) by blast
next
  case False
  then have "drop (j - length M) Z = c # t" using assms(1) by simp
  then have "c \<in> set (drop (j - length M) Z)" by simp
  then have "c \<in> set Z" using set_drop_subset [of "j - length M" Z] by blast
  then show ?thesis using assms(2) by simp
qed

lemma drop_past_head:
  assumes "drop j (A @ B) = c # t" and "c \<notin> set A"
  shows "drop (j - length A) B = c # t"
proof (cases "j < length A")
  case True
  then have "drop j A @ B = c # t" using assms(1) by simp
  moreover have "drop j A \<noteq> []" using True by simp
  ultimately have "c \<in> set (drop j A)" by (cases "drop j A") auto
  then have "c \<in> set A" using set_drop_subset [of j A] by blast
  then show ?thesis using assms(2) by simp
next
  case False
  then show ?thesis using assms(1) by simp
qed

lemma slash_not_digit: "\<not> is_digit CHR ''/''"
  by (simp add: is_digit_def)

lemma rmatch_name_inner_slash:
  assumes "\<forall>c \<in> set row. is_digit c" and "\<forall>c \<in> set col. is_digit c"
    and "zoom \<noteq> []" and "\<forall>c \<in> set zoom. is_digit c"
    and "\<forall>c \<in> set mt. \<not> is_digit c"
    and "s1 \<in> set ''-_''" and "s2 \<in> set ''-_''"
    and "drop j (row @ s1 # col @ s2 # mt @ zoom @ ''.dds'') = CHR ''/'' # t"
  shows "rmatch dds_name_re t g caps = None"
proof -
  have h: "CHR ''/'' \<notin> set (row @ s1 # col @ [s2])"
    using assms(1,2,6,7) slash_not_digit by auto
  have z: "CHR ''/'' \<notin> set (zoom @ ''.dds'')"
    using assms(4) slash_not_digit by auto
  have "drop j ((row @ s1 # col @ [s2]) @ mt @ zoom @ ''.dds'') = CHR ''/'' # t"
    using assms(8) by simp
  from drop_past_head [OF this h]
  have "drop (j - length (row @ s1 # col @ [s2])) (mt @ (zoom @ ''.dds'')) = CHR ''/'' # t"
    by simp
  from drop_in_middle [OF this z] obtain m2 where
    t: "t = m2 @ zoom @ ''.dds''" and m2: "set m2 \<subseteq> set mt" by auto
  show ?thesis
  proof (cases m2)
    case Nil
    have tw: "takeWhile is_digit (zoom @ ''.dds'') = zoom"
      and dw: "dropWhile is_digit (zoom @ ''.dds'') = ''.dds''"
      using assms(4) by (simp_all add: is_digit_def)
    show ?thesis unfolding rmatch_name t Nil append_Nil tw dw by simp
  next
    case (Cons x xs)
    then have "\<not> is_digit x" using m2 assms(5) by auto
    then have tw: "takeWhile is_digit (m2 @ zoom @ ''.dds'') = []"
      and dw: "dropWhile is_digit (m2 @ zoom @ ''.dds'') = m2 @ zoom @ ''.dds''"
      using Cons by simp_all
    show ?thesis unfolding rmatch_name t tw dw by (simp add: Cons)
  qed
qed

lemma dds_scan_after:
  assumes "\<forall>c \<in> set row. is_digit c" and "\<forall>c \<in> set col. is_digit c"
    and "zoom \<noteq> []" and "\<forall>c \<in> set zoom. is_digit c"
    and "\<forall>c \<in> set mt. \<not> is_digit c"
    and "s1 \<in> set ''-_''" and "s2 \<in> set ''-_''"
    and "length pre < n"
  shows "(case drop n (pre @ CHR ''/'' # row @ s1 # col @ s2 # mt @ zoom @ ''.dds'') of
            [] \<Rightarrow> None
          | x # t \<Rightarrow> if x = CHR ''/'' then rmatch dds_name_re t g caps else None) = None"
proof -
  let ?T = "row @ s1 # col @ s2 # mt @ zoom @ ''.dds''"
  have d: "drop n (pre @ CHR ''/'' # ?T) = drop (n - Suc (length pre)) ?T"
    using assms(8) by (simp add: drop_Cons')
  show ?thesis
  proof (cases "drop (n - Suc (length pre)) ?T")
    case Nil
    then show ?thesis unfolding d by simp
  next
    case (Cons x t)
    show ?thesis
    proof (cases "x = CHR ''/''")
      case True
      have "rmatch dds_name_re t g caps = None"
        using rmatch_name_inner_slash [OF assms(1-7)] Cons True by blast
      then show ?thesis unfolding d Cons using True by simp
    next
      case False
      then show ?thesis unfolding d Cons by simp
    qed
  qed
qed

lemma dds_match_wellformed:
  assumes "CHR 0x0A \<notin> set pre"
    and "row \<noteq> []" and "\<forall>c \<in> set row. is_digit c"
    and "col \<noteq> []" and "\<forall>c \<in> set col. is_digit c"
    and "zoom \<noteq> []" and "\<forall>c \<in> set zoom. is_digit c"
    and "\<forall>c \<in> set mt. \<not> is_digit c" and "\<not> prefix ''ZL'' mt"
    and "s1 \<in> set ''-_''" and "s2 \<in> set ''-_''"
  shows "dds_match (pre @ ''/'' @ row @ s1 # col @ s2 # mt @ zoom @ ''.dds'')
           = Some (row, col, mt, zoom)"
proof -
  let ?T = "row @ s1 # col @ s2 # mt @ zoom @ ''.dds''"
  let ?p = "pre @ CHR ''/'' # ?T"
  let ?f = "\<lambda>n. case drop n ?p of
               [] \<Rightarrow> None
             | x # t \<Rightarrow> if x = CHR ''/'' then rmatch dds_name_re t ?p [] else None"
  let ?L = "length (takeWhile (\<lambda>c. c \<noteq> CHR 0x0A) ?p)"
  have "takeWhile (\<lambda>c. c \<noteq> CHR 0x0A) ?p = pre @ takeWhile (\<lambda>c. c \<noteq> CHR 0x0A) (CHR ''/'' # ?T)"
    using assms(1) by (intro takeWhile_append2) auto
  then have kL: "length pre \<le> ?L" by simp
  have fk: "?f (length pre) = Some [row, col, mt, zoom]"
    using rmatch_name_wellformed [OF assms(2-8,10,11), of ?p "[]"] assms(9) by simp
  have after: "?f n = None" if "length pre < n" and "n \<le> ?L" for n
    by (rule dds_scan_after [OF assms(3,5,6,7,8,10,11) that(1)])
  have "rmatch dds_re ?p ?p [] = Some [row, col, mt, zoom]"
    unfolding rmatch_dds
    by (rule first_some_desc [of 0 "length pre" ?L ?f "[row, col, mt, zoom]", OF le0 kL fk after])
  then show ?thesis by (simp add: dds_match_def)
qed

lemma dds_match_ZL:
  assumes "CHR ''/'' \<notin> set pre"
    and "row \<noteq> []" and "\<forall>c \<in> set row. is_digit c"
    and "col \<noteq> []" and "\<forall>c \<in> set col. is_digit c"
    and "zoom \<noteq> []" and "\<forall>c \<in> set zoom. is_digit c"
    and "\<forall>c \<in> set mt. \<not> is_digit c" and "prefix ''ZL'' mt"
    and "s1 \<in> set ''-_''" and "s2 \<in> set ''-_''"
  shows "dds_match (pre @ ''/'' @ row @ s1 # col @ s2 # mt @ zoom @ ''.dds'') = None"
proof -
  let ?T = "row @ s1 # col @ s2 # mt @ zoom @ ''.dds''"
  let ?p = "pre @ CHR ''/'' # ?T"
  let ?f = "\<lambda>n. case drop n ?p of
               [] \<Rightarrow> None
             | x # t \<Rightarrow> if x = CHR ''/'' then rmatch dds_name_re t ?p [] else None"
  have all: "?f n = None" for n
  proof -
    consider "n < length pre" | "n = length pre" | "length pre < n" by linarith
    then show ?thesis
    proof cases
      case 1
      then have "drop n ?p = pre ! n # drop (Suc n) pre @ CHR ''/'' # ?T"
        by (simp add: Cons_nth_drop_Suc)
      moreover have "pre ! n \<noteq> CHR ''/''" using 1 assms(1) by (metis nth_mem)
      ultimately show ?thesis by simp
    next
      case 2
      then show ?thesis
        using rmatch_name_wellformed [OF assms(2-8,10,11), of ?p "[]"] assms(9) by simp
    next
      case 3
      then show ?thesis by (rule dds_scan_after [OF assms(3,5,6,7,8,10,11)])
    qed
  qed
  have "rmatch dds_re ?p ?p [] = None"
    unfolding rmatch_dds by (rule first_some_None) (rule all)
  then show ?thesis by (simp add: dds_match_def)
qed

lemma rmatch_name_fields:
  assumes "rmatch dds_name_re t g [] = Some caps"
  shows "\<exists>row s1 col s2 mt zoom rest.
           caps = [row, col, mt, zoom] \<and> t = row @ s1 # col @ s2 # mt @ zoom @ rest
           \<and> row \<noteq> [] \<and> (\<forall>c \<in> set row. is_digit c)
           \<and> col \<noteq> [] \<and> (\<forall>c \<in> set col. is_digit c)
           \<and> zoom \<noteq> [] \<and> (\<forall>c \<in> set zoom. is_digit c)
           \<and> (\<forall>c \<in> set mt. \<not> is_digit c) \<and> \<not> prefix ''ZL'' mt
           \<and> s1 \<in> set ''-_'' \<and> s2 \<in> set ''-_''"
proof -
  let ?row = "takeWhile is_digit t"
  from assms obtain s1 t2 where t1: "dropWhile is_digit t = s1 # t2"
    and row: "?row \<noteq> []" and s1: "s1 \<in> set ''-_''"
    unfolding rmatch_name by (auto split: list.splits if_splits)
  let ?col = "takeWhile is_digit t2"
  from assms t1 row s1 obtain s2 t4 where t3: "dropWhile is_digit t2 = s2 # t4"
    and col: "?col \<noteq> []" and s2: "s2 \<in> set ''-_''"
    unfolding rmatch_name by (auto split: list.splits if_splits)
  let ?mt = "takeWhile (\<lambda>c. \<not> is_digit c) t4"
  let ?t5 = "dropWhile (\<lambda>c. \<not> is_digit c) t4"
  from assms t1 row s1 t3 col s2 have zl: "\<not> prefix ''ZL'' t4"
    and fs: "first_some
               (\<lambda>n. if \<exists>c rest. drop n ?t5 = c # ''dds'' @ rest \<and> c \<noteq> CHR 0x0A
                    then Some ([] @ [?row, ?col, ?mt, take n ?t5]) else None)
               (rev [1 ..< Suc (length (takeWhile is_digit ?t5))]) = Some caps"
    unfolding rmatch_name by (auto split: if_splits)
  from first_some_SomeD [OF fs] obtain n where
    n: "1 \<le> n" "n \<le> length (takeWhile is_digit ?t5)" and caps: "caps = [?row, ?col, ?mt, take n ?t5]"
    by (auto split: if_splits)
  let ?zoom = "take n ?t5"
  have zt: "?zoom = take n (takeWhile is_digit ?t5)"
    using n(2) by (metis takeWhile_eq_take take_take min.absorb1)
  have zd: "\<forall>c \<in> set ?zoom. is_digit c"
    unfolding zt by (meson in_set_takeD set_takeWhileD)
  have zn: "?zoom \<noteq> []"
    using n length_takeWhile_le [of is_digit ?t5] by (cases ?t5) auto
  have dec: "t = ?row @ s1 # ?col @ s2 # ?mt @ ?zoom @ drop n ?t5"
  proof -
    have "t = ?row @ dropWhile is_digit t" by simp
    also have "dropWhile is_digit t = s1 # ?col @ dropWhile is_digit t2"
      unfolding t1 by simp
    also have "dropWhile is_digit t2 = s2 # ?mt @ ?t5" unfolding t3 by simp
    also have "?t5 = ?zoom @ drop n ?t5" by simp
    finally show ?thesis .
  qed
  have mz: "\<not> prefix ''ZL'' ?mt"
  proof
    assume "prefix ''ZL'' ?mt"
    moreover have "prefix ?mt t4" by (metis prefixI takeWhile_dropWhile_id)
    ultimately show False using zl by (meson prefix_order.trans)
  qed
  have md: "\<forall>c \<in> set ?mt. \<not> is_digit c"
    using set_takeWhileD [of _ "\<lambda>c. \<not> is_digit c" t4] by blast
  have rd: "\<forall>c \<in> set ?row. is_digit c" by (meson set_takeWhileD)
  have cd: "\<forall>c \<in> set ?col. is_digit c" by (meson set_takeWhileD)
  show ?thesis
    using caps dec row rd col cd zn zd md mz s1 s2 by blast
qed

lemma dds_match_fields:
  assumes "dds_match p = Some (row, col, mt, zoom)"
  shows "row \<noteq> [] \<and> (\<forall>c \<in> set row. is_digit c)
       \<and> col \<noteq> [] \<and> (\<forall>c \<in> set col. is_digit c)
       \<and> zoom \<noteq> [] \<and> (\<forall>c \<in> set zoom. is_digit c)
       \<and> (\<forall>c \<in> set mt. \<not> is_digit c) \<and> \<not> prefix ''ZL'' mt
       \<and> (\<exists>pre s1 s2 rest.
             p = pre @ ''/'' @ row @ s1 # col @ s2 # mt @ zoom @ rest
             \<and> s1 \<in> set ''-_'' \<and> s2 \<in> set ''-_'')"
proof -
  from assms have r: "rmatch dds_re p p [] = Some [row, col, mt, zoom]"
    by (auto simp: dds_match_def split: option.splits list.splits)
  from first_some_SomeD [OF r [unfolded rmatch_dds]] obtain n where
    fn: "(case drop n p of
            [] \<Rightarrow> None
          | x # t \<Rightarrow> if x = CHR ''/'' then rmatch dds_name_re t p [] else None)
         = Some [row, col, mt, zoom]"
    by blast
  obtain t where
    d: "drop n p = CHR ''/'' # t" and m: "rmatch dds_name_re t p [] = Some [row, col, mt, zoom]"
  proof (cases "drop n p")
    case Nil
    then show ?thesis using fn by simp
  next
    case (Cons x t)
    then have "x = CHR ''/''" and "rmatch dds_name_re t p [] = Some [row, col, mt, zoom]"
      using fn by (simp_all split: if_splits)
    then show ?thesis using Cons that by simp
  qed
  have p: "p = take n p @ CHR ''/'' # t"
    using d by (metis append_take_drop_id)
  from rmatch_name_fields [OF m] obtain s1 s2 rest where
    "t = row @ s1 # col @ s2 # mt @ zoom @ rest"
    "row \<noteq> []" "\<forall>c \<in> set row. is_digit c" "col \<noteq> []" "\<forall>c \<in> set col. is_digit c"
    "zoom \<noteq> []" "\<forall>c \<in> set zoom. is_digit c" "\<forall>c \<in> set mt. \<not> is_digit c"
    "\<not> prefix ''ZL'' mt" "s1 \<in> set ''-_''" "s2 \<in> set ''-_''"
    by auto
  then show ?thesis using p by (metis append_Cons append_Nil)
qed

text \<open>
  C4 as stated: a path is recognized exactly when its filename follows the convention
  with a map type that is not equal to \<^verbatim>\<open>ZL\<close>. The lookahead \<^verbatim>\<open>(?!ZL)\<close> refuses
  every map type that begins with \<^verbatim>\<open>ZL\<close>: the name below follows the convention
  with the map type \<^verbatim>\<open>ZLX\<close> and is not recognized.
\<close>

theorem classifier_rejects_ZL_prefix:
  "spec_classify ''/1_2_ZLX16.dds'' = Some (''1'', ''2'', ''ZLX'', ''16'')
   \<and> dds_match ''/1_2_ZLX16.dds'' = None"
  by (simp add: spec_classify_def name_fields_ok_def dds_match_def dds_re_def is_digit_def)

text \<open>
  C4, amended. A path \<^verbatim>\<open><prefix>/<row><sep><col><sep><maptype><zoom>.dds\<close>, where the
  prefix has no newline, row, col and zoom are non-empty runs of digits, each separator
  is \<^verbatim>\<open>-\<close> or \<^verbatim>\<open>_\<close> and the map type is a run of non-digits (it may be empty) that
  does not begin with \<^verbatim>\<open>ZL\<close>, is recognized, and exactly the row, column, map type
  and zoom written in it are extracted. Such a path whose map type begins with
  \<^verbatim>\<open>ZL\<close>, with no slash in the prefix, is not recognized. Whenever a path is
  recognized, the extracted fields have that shape, the map type does not begin with
  \<^verbatim>\<open>ZL\<close>, and the path contains them in this order after a slash. The classifier is
  a total function: every other path gives \<open>None\<close>, no error.
\<close>

theorem classifier_names:
  "(name_fields_ok row s1 col s2 mt zoom \<and> CHR 0x0A \<notin> set pre \<and> \<not> prefix ''ZL'' mt
      \<longrightarrow> dds_match (pre @ ''/'' @ row @ s1 # col @ s2 # mt @ zoom @ ''.dds'')
            = Some (row, col, mt, zoom))
   \<and> (name_fields_ok row s1 col s2 mt zoom \<and> CHR ''/'' \<notin> set pre \<and> prefix ''ZL'' mt
      \<longrightarrow> dds_match (pre @ ''/'' @ row @ s1 # col @ s2 # mt @ zoom @ ''.dds'') = None)
   \<and> (dds_match p = Some (r, c, m, z)
      \<longrightarrow> (\<exists>pre' a b rest.
             name_fields_ok r a c b m z \<and> \<not> prefix ''ZL'' m
             \<and> p = pre' @ ''/'' @ r @ a # c @ b # m @ z @ rest))"
proof (intro conjI impI)
  assume a: "name_fields_ok row s1 col s2 mt zoom \<and> CHR 0x0A \<notin> set pre \<and> \<not> prefix ''ZL'' mt"
  then show "dds_match (pre @ ''/'' @ row @ s1 # col @ s2 # mt @ zoom @ ''.dds'')
            = Some (row, col, mt, zoom)"
    by (intro dds_match_wellformed) (simp_all add: name_fields_ok_def list_all_iff)
next
  assume a: "name_fields_ok row s1 col s2 mt zoom \<and> CHR ''/'' \<notin> set pre \<and> prefix ''ZL'' mt"
  then show "dds_match (pre @ ''/'' @ row @ s1 # col @ s2 # mt @ zoom @ ''.dds'') = None"
    by (intro dds_match_ZL) (simp_all add: name_fields_ok_def list_all_iff)
next
  assume "dds_match p = Some (r, c, m, z)"
  from dds_match_fields [OF this] obtain pre' a b rest where
    "r \<noteq> []" "\<forall>x \<in> set r. is_digit x" "c \<noteq> []" "\<forall>x \<in> set c. is_digit x"
    "z \<noteq> []" "\<forall>x \<in> set z. is_digit x" "\<forall>x \<in> set m. \<not> is_digit x" "\<not> prefix ''ZL'' m"
    "p = pre' @ ''/'' @ r @ a # c @ b # m @ z @ rest" "a \<in> set ''-_''" "b \<in> set ''-_''"
    by blast
  then have "name_fields_ok r a c b m z \<and> \<not> prefix ''ZL'' m
             \<and> p = pre' @ ''/'' @ r @ a # c @ b # m @ z @ rest"
    by (simp add: name_fields_ok_def list_all_iff)
  then show "\<exists>pre' a b rest.
             name_fields_ok r a c b m z \<and> \<not> prefix ''ZL'' m
             \<and> p = pre' @ ''/'' @ r @ a # c @ b # m @ z @ rest"
    by blast
qed

theorem classifier_names_witness:
  "name_fields_ok ''24832'' CHR ''_'' ''12416'' CHR ''_'' ''BI'' ''16''
   \<and> dds_match ''/textures/24832_12416_BI16.dds'' = Some (''24832'', ''12416'', ''BI'', ''16'')
   \<and> name_fields_ok ''1'' CHR ''-'' ''2'' CHR ''_'' ''ZL'' ''16''
   \<and> dds_match ''/1-2_ZL16.dds'' = None
   \<and> (\<exists>pre' a b rest.
         name_fields_ok ''24832'' a ''12416'' b ''BI'' ''16''
         \<and> ''/textures/24832_12416_BI16.dds''
             = pre' @ ''/'' @ ''24832'' @ a # ''12416'' @ b # ''BI'' @ ''16'' @ rest)"
proof -
  have f1: "name_fields_ok ''24832'' CHR ''_'' ''12416'' CHR ''_'' ''BI'' ''16''"
    by (simp add: name_fields_ok_def is_digit_def)
  have f2: "name_fields_ok ''1'' CHR ''-'' ''2'' CHR ''_'' ''ZL'' ''16''"
    by (simp add: name_fields_ok_def is_digit_def)
  have m1: "dds_match ''/textures/24832_12416_BI16.dds'' = Some (''24832'', ''12416'', ''BI'', ''16'')"
    using classifier_names [of "''24832''" "CHR ''_''" "''12416''" "CHR ''_''" "''BI''" "''16''"
        "''/textures''"] f1
    by simp
  have m2: "dds_match ''/1-2_ZL16.dds'' = None"
    using classifier_names [of "''1''" "CHR ''-''" "''2''" "CHR ''_''" "''ZL''" "''16''" "''''"] f2
    by simp
  have m3: "\<exists>pre' a b rest.
         name_fields_ok ''24832'' a ''12416'' b ''BI'' ''16''
         \<and> ''/textures/24832_12416_BI16.dds''
             = pre' @ ''/'' @ ''24832'' @ a # ''12416'' @ b # ''BI'' @ ''16'' @ rest"
    using classifier_names [of _ _ _ _ _ _ _ "''/textures/24832_12416_BI16.dds''"
        "''24832''" "''12416''" "''BI''" "''16''"] m1
    by blast
  show ?thesis using f1 f2 m1 m2 m3 by (intro conjI)
qed

section \<open>Properties of path resolution\<close>

lemma split_slash_not_Nil [simp]: "split_slash s \<noteq> []"
  by (induction s) (auto split: list.splits)

lemma split_slash_append: "split_slash (a @ CHR ''/'' # b) = split_slash a @ split_slash b"
proof (induction a)
  case Nil
  then show ?case by simp
next
  case (Cons c a)
  then show ?case by (cases "split_slash a") auto
qed

lemma split_slash_no_slash: "c \<in> set (split_slash s) \<Longrightarrow> CHR ''/'' \<notin> set c"
proof (induction s arbitrary: c)
  case Nil
  then show ?case by simp
next
  case (Cons x s)
  then show ?case by (cases "split_slash s") (auto split: if_splits)
qed

lemma split_slash_plain: "CHR ''/'' \<notin> set c \<Longrightarrow> split_slash c = [c]"
  by (induction c) auto

lemma split_slash_slashes: "split_slash (replicate k CHR ''/'' @ s) = replicate k [] @ split_slash s"
  by (induction k) auto

lemma split_join_slash:
  assumes "cs \<noteq> []" and "\<forall>c \<in> set cs. CHR ''/'' \<notin> set c"
  shows "split_slash (join_slash cs) = cs"
  using assms
proof (induction cs rule: join_slash.induct)
  case 1
  then show ?case by simp
next
  case (2 c)
  then show ?case by (simp add: split_slash_plain)
next
  case (3 c d cs)
  then show ?case by (simp add: split_slash_append split_slash_plain)
qed

lemma components_slashes_join:
  assumes "\<forall>c \<in> set cs. c \<noteq> [] \<and> CHR ''/'' \<notin> set c"
  shows "components (replicate k CHR ''/'' @ join_slash cs) = cs"
proof (cases cs)
  case Nil
  then show ?thesis
    using split_slash_slashes [of k "[]"] by (simp add: components_def)
next
  case (Cons c cs')
  then have "split_slash (join_slash cs) = cs"
    using assms by (intro split_join_slash) auto
  moreover have "filter (\<lambda>c. c \<noteq> []) cs = cs"
    using assms by (simp add: filter_id_conv)
  ultimately show ?thesis by (simp add: components_def split_slash_slashes)
qed

text \<open>The components \<^verbatim>\<open>normpath\<close> keeps are non-empty pieces of the path.\<close>

lemma normpath_step_parts:
  assumes "\<forall>c \<in> set acc. c \<noteq> [] \<and> CHR ''/'' \<notin> set c" and "CHR ''/'' \<notin> set x"
  shows "\<forall>c \<in> set (normpath_step i acc x). c \<noteq> [] \<and> CHR ''/'' \<notin> set c"
  using assms by (auto simp: normpath_step_def dest: in_set_butlastD)

lemma normpath_fold_parts:
  assumes "\<forall>c \<in> set acc. c \<noteq> [] \<and> CHR ''/'' \<notin> set c" and "\<forall>x \<in> set xs. CHR ''/'' \<notin> set x"
  shows "\<forall>c \<in> set (foldl (normpath_step i) acc xs). c \<noteq> [] \<and> CHR ''/'' \<notin> set c"
  using assms
proof (induction xs arbitrary: acc)
  case Nil
  then show ?case by simp
next
  case (Cons x xs)
  have a: "\<forall>c \<in> set (normpath_step i acc x). c \<noteq> [] \<and> CHR ''/'' \<notin> set c"
    using Cons.prems by (intro normpath_step_parts) auto
  have b: "\<forall>x \<in> set xs. CHR ''/'' \<notin> set x"
    using Cons.prems(2) by simp
  from Cons.IH [OF a b] show ?case by simp
qed

lemma components_normpath:
  assumes "prefix ''/'' p"
  shows "components (normpath p) = foldl (normpath_step True) [] (split_slash p)"
proof -
  let ?cs = "foldl (normpath_step True) [] (split_slash p)"
  have parts: "\<forall>c \<in> set ?cs. c \<noteq> [] \<and> CHR ''/'' \<notin> set c"
    by (intro normpath_fold_parts) (auto dest: split_slash_no_slash)
  have pn: "p \<noteq> []" using assms by auto
  obtain k where k: "normpath p = replicate (Suc k) CHR ''/'' @ join_slash ?cs"
  proof (cases "prefix ''//'' p \<and> \<not> prefix ''///'' p")
    case True
    have "normpath p = replicate (Suc 1) CHR ''/'' @ join_slash ?cs"
      unfolding normpath_def Let_def using True assms pn by (simp add: numeral_2_eq_2)
    then show ?thesis by (rule that)
  next
    case False
    have "(if prefix ''//'' p \<and> \<not> prefix ''///'' p then 2 else 1) = Suc 0"
      using False by (simp only: if_False One_nat_def)
    then have "normpath p = replicate (Suc 0) CHR ''/'' @ join_slash ?cs"
      unfolding normpath_def Let_def using assms pn by simp
    then show ?thesis by (rule that)
  qed
  show ?thesis unfolding k by (rule components_slashes_join [OF parts])
qed

text \<open>Components that are not \<^verbatim>\<open>..\<close> only ever extend what \<^verbatim>\<open>normpath\<close> has collected.\<close>

lemma normpath_fold_extends:
  assumes "''..'' \<notin> set xs"
  shows "foldl (normpath_step i) acc xs = acc @ filter (\<lambda>c. c \<noteq> [] \<and> c \<noteq> ''.'') xs"
  using assms by (induction xs arbitrary: acc) (auto simp: normpath_step_def)

lemma split_posix_join:
  assumes "\<not> prefix ''/'' rel" and "R \<noteq> []"
  shows "foldl (normpath_step i) [] (split_slash (posix_join R rel))
       = foldl (normpath_step i) (foldl (normpath_step i) [] (split_slash R)) (split_slash rel)"
proof (cases "last R = CHR ''/''")
  case True
  then obtain R0 where R0: "R = R0 @ ''/''"
    using assms(2) by (metis append_butlast_last_id)
  have j: "posix_join R rel = R0 @ CHR ''/'' # rel"
    using assms(1) True R0 by (simp add: posix_join_def)
  have s: "split_slash R = split_slash R0 @ [[]]"
    unfolding R0 using split_slash_append [of R0 "[]"] by simp
  show ?thesis
    unfolding j s split_slash_append by (simp add: normpath_step_def)
next
  case False
  then have j: "posix_join R rel = R @ CHR ''/'' # rel"
    using assms by (simp add: posix_join_def)
  show ?thesis unfolding j split_slash_append by simp
qed

lemma normpath_join_within:
  assumes "prefix ''/'' R" and "\<not> prefix ''/'' rel" and "''..'' \<notin> set (split_slash rel)"
  shows "path_within (normpath R) (normpath (posix_join R rel))"
proof -
  have Rn: "R \<noteq> []" using assms(1) by auto
  have ja: "prefix ''/'' (posix_join R rel)"
    using assms(1,2) Rn by (cases R) (auto simp: posix_join_def)
  have "foldl (normpath_step True) [] (split_slash (posix_join R rel))
        = foldl (normpath_step True) [] (split_slash R)
            @ filter (\<lambda>c. c \<noteq> [] \<and> c \<noteq> ''.'') (split_slash rel)"
    unfolding split_posix_join [OF assms(2) Rn] by (rule normpath_fold_extends [OF assms(3)])
  then show ?thesis
    unfolding path_within_def components_normpath [OF assms(1)] components_normpath [OF ja]
    by simp
qed

lemma abs_posix_join:
  assumes "prefix ''/'' cwd" and "\<not> prefix ''/'' rel"
  shows "(if prefix ''/'' (posix_join rootdir rel) then posix_join rootdir rel
          else posix_join cwd (posix_join rootdir rel))
       = posix_join (if prefix ''/'' rootdir then rootdir else posix_join cwd rootdir) rel"
proof (cases rootdir)
  case Nil
  then show ?thesis using assms by (auto simp: posix_join_def)
next
  case (Cons x xs)
  show ?thesis
  proof (cases "x = CHR ''/''")
    case True
    then show ?thesis using assms Cons by (auto simp: posix_join_def)
  next
    case False
    have cn: "cwd \<noteq> []" using assms(1) by auto
    show ?thesis using assms Cons False cn by (auto simp: posix_join_def)
  qed
qed

lemma abs_root_absolute:
  assumes "prefix ''/'' cwd"
  shows "prefix ''/'' (if prefix ''/'' rootdir then rootdir else posix_join cwd rootdir)"
  using assms by (cases cwd) (auto simp: posix_join_def)

lemma full_path_within:
  assumes "prefix ''/'' cwd" and "\<not> prefix ''//'' partial"
    and "''..'' \<notin> set (split_slash partial)"
  shows "path_within (abspath cwd rootdir) (full_path cwd rootdir partial)"
proof -
  let ?rel = "if prefix ''/'' partial then drop 1 partial else partial"
  let ?R = "if prefix ''/'' rootdir then rootdir else posix_join cwd rootdir"
  have r1: "\<not> prefix ''/'' ?rel"
  proof (cases partial)
    case Nil
    then show ?thesis by simp
  next
    case (Cons x xs)
    then show ?thesis using assms(2) by (cases xs) auto
  qed
  have r2: "''..'' \<notin> set (split_slash ?rel)"
  proof (cases partial)
    case Nil
    then show ?thesis using assms(3) by simp
  next
    case (Cons x xs)
    then show ?thesis using assms(3) by (auto split: if_splits)
  qed
  have "full_path cwd rootdir partial = normpath (posix_join ?R ?rel)"
    unfolding full_path_def abspath_def abs_posix_join [OF assms(1) r1] ..
  moreover have "abspath cwd rootdir = normpath ?R"
    by (simp add: abspath_def)
  ultimately show ?thesis
    using normpath_join_within [OF abs_root_absolute [OF assms(1)] r1 r2] by simp
qed

text \<open>
  C9 as stated: the resolution rejects results that escape the backing directory, and
  the resolved path always lies within the configured root. \<^verbatim>\<open>_full_path\<close> rejects
  nothing, and a \<^verbatim>\<open>..\<close> component takes the result out of the root.
\<close>

theorem full_path_escapes_root:
  "dds_match ''/../etc/passwd'' = None
   \<and> full_path ''/'' ''/srv/ortho'' ''/../etc/passwd'' = ''/srv/etc/passwd''
   \<and> abspath ''/'' ''/srv/ortho'' = ''/srv/ortho''
   \<and> \<not> path_within (abspath ''/'' ''/srv/ortho'') (full_path ''/'' ''/srv/ortho'' ''/../etc/passwd'')"
proof -
  have m: "dds_match ''/../etc/passwd'' = None"
    by (simp add: dds_match_def dds_re_def is_digit_def)
  have f: "full_path ''/'' ''/srv/ortho'' ''/../etc/passwd'' = ''/srv/etc/passwd''"
    by (simp add: full_path_def abspath_def posix_join_def normpath_def normpath_step_def Let_def)
  have a: "abspath ''/'' ''/srv/ortho'' = ''/srv/ortho''"
    by (simp add: abspath_def normpath_def normpath_step_def Let_def)
  have w: "\<not> path_within ''/srv/ortho'' ''/srv/etc/passwd''"
    by (simp add: path_within_def components_def)
  show ?thesis unfolding f a using m w by simp
qed

text \<open>
  C9, amended. Every operation is passed to the host. The operations that take a path
  (\<^verbatim>\<open>_access\<close>, \<^verbatim>\<open>chmod\<close>, \<^verbatim>\<open>chown\<close>, \<^verbatim>\<open>readdir\<close>, \<^verbatim>\<open>readlink\<close>,
  \<^verbatim>\<open>mknod\<close>, \<^verbatim>\<open>rmdir\<close>, \<^verbatim>\<open>mkdir\<close>, \<^verbatim>\<open>statfs\<close> on Linux, \<^verbatim>\<open>unlink\<close>,
  \<^verbatim>\<open>symlink\<close>, \<^verbatim>\<open>rename\<close>, \<^verbatim>\<open>link\<close>, \<^verbatim>\<open>utimens\<close>, \<^verbatim>\<open>_create\<close>,
  \<^verbatim>\<open>truncate\<close> and, on a path the classifier does not recognize, \<^verbatim>\<open>getattr\<close> and
  \<^verbatim>\<open>open\<close>) call the primitive of the host on the re-rooted path, which is the
  absolute, normalized join of the root with the request path less one leading slash,
  and fail exactly when the primitive fails, with its error. \<^verbatim>\<open>_write\<close> and, on a
  path the classifier does not recognize, \<^verbatim>\<open>read\<close>, \<^verbatim>\<open>_flush\<close> and \<^verbatim>\<open>release\<close>
  call the primitive on the descriptor that \<^verbatim>\<open>open\<close> returned. \<^verbatim>\<open>_releasedir\<close>
  and \<^verbatim>\<open>close\<close> return 0, \<^verbatim>\<open>fsync\<close> is the inherited \<^verbatim>\<open>flush\<close>, and
  \<^verbatim>\<open>statfs\<close> on Windows returns fixed figures. Nothing is rejected. The resolved
  path lies within the root whenever the request path has no \<^verbatim>\<open>..\<close> component and
  does not begin with two slashes (the working directory being absolute, as
  \<^verbatim>\<open>os.getcwd()\<close> is).
\<close>

theorem passthrough_resolution:
  "(dds_match path = None \<longrightarrow>
      ao_getattr os ao path h =
        (case os_lstat os (full_path (getcwd os) (ao_root ao) path) h of
           Inl e \<Rightarrow> Inl e
         | Inr st \<Rightarrow> Inr (st\<lparr>st_blksize := None\<rparr>))
      \<and> ao_open os path flags (ao, h) =
        (case os_open os (full_path (getcwd os) (ao_root ao) path) flags h of
           Inl e \<Rightarrow> Inl e
         | Inr (fd, h') \<Rightarrow> Inr (fd, ao, h')))
   \<and> full_path cwd rootdir partial =
       normpath
         (let joined = posix_join rootdir (if prefix ''/'' partial then drop 1 partial else partial)
          in if prefix ''/'' joined then joined else posix_join cwd joined)
   \<and> (prefix ''/'' cwd \<and> \<not> prefix ''//'' partial \<and> ''..'' \<notin> set (split_slash partial)
        \<longrightarrow> path_within (abspath cwd rootdir) (full_path cwd rootdir partial))
   \<and> (dds_match path = None \<longrightarrow>
        ao_read os path len offset fh (ao, h) =
          (case os_lseek os fh offset h of
             Inl e \<Rightarrow> Inl e
           | Inr h1 \<Rightarrow>
               (case os_read os fh len h1 of
                  Inl e \<Rightarrow> Inl e
                | Inr (data, h2) \<Rightarrow> Inr (data, ao, h2)))
        \<and> ao_flush os path fh (ao, h) =
          (case os_fsync os fh h of Inl e \<Rightarrow> Inl e | Inr h' \<Rightarrow> Inr (0, ao, h'))
        \<and> ao_release os path fh (ao, h) =
          (case os_close os fh h of Inl e \<Rightarrow> Inl e | Inr h' \<Rightarrow> Inr (0, ao, h')))
   \<and> ao_write os path buf offset fh (ao, h) =
       (case os_lseek os fh offset h of
          Inl e \<Rightarrow> Inl e
        | Inr h1 \<Rightarrow>
            (case os_write os fh buf h1 of
               Inl e \<Rightarrow> Inl e
             | Inr (n, h2) \<Rightarrow> Inr (n, ao, h2)))
   \<and> ao_truncate os path len (ao, h) =
       (case open_truncate os (full_path (getcwd os) (ao_root ao) path) len h of
          Inl e \<Rightarrow> Inl e
        | Inr h' \<Rightarrow> Inr (0, ao, h'))
   \<and> ao_access os path mode (ao, h) =
       (if os_access os (full_path (getcwd os) (ao_root ao) path) mode h
        then Inr (0, ao, h) else Inl EACCES)
   \<and> ao_chmod os path mode (ao, h) =
       (case os_chmod os (full_path (getcwd os) (ao_root ao) path) mode h of
          Inl e \<Rightarrow> Inl e
        | Inr h' \<Rightarrow> Inr (0, ao, h'))
   \<and> ao_chown os path uid gid (ao, h) =
       (case os_chown os (full_path (getcwd os) (ao_root ao) path) uid gid h of
          Inl e \<Rightarrow> Inl e
        | Inr h' \<Rightarrow> Inr (0, ao, h'))
   \<and> ao_readdir os path fh (ao, h) =
       (if os_isdir os (full_path (getcwd os) (ao_root ao) path) h then
          (case os_listdir os (full_path (getcwd os) (ao_root ao) path) h of
             Inl e \<Rightarrow> Inl e
           | Inr names \<Rightarrow> Inr (''.'' # ''..'' # names, ao, h))
        else Inr ([''.'', ''..''], ao, h))
   \<and> ao_readlink os path (ao, h) =
       (case os_readlink os (full_path (getcwd os) (ao_root ao) path) h of
          Inl e \<Rightarrow> Inl e
        | Inr pathname \<Rightarrow>
            Inr (if prefix ''/'' pathname then relpath (getcwd os) pathname (ao_root ao)
                 else pathname, ao, h))
   \<and> ao_mknod os path mode dev (ao, h) =
       (case os_mknod os (full_path (getcwd os) (ao_root ao) path) mode dev h of
          Inl e \<Rightarrow> Inl e
        | Inr h' \<Rightarrow> Inr (0, ao, h'))
   \<and> ao_rmdir os path (ao, h) =
       (case os_rmdir os (full_path (getcwd os) (ao_root ao) path) h of
          Inl e \<Rightarrow> Inl e
        | Inr h' \<Rightarrow> Inr (0, ao, h'))
   \<and> ao_mkdir os path mode (ao, h) =
       (case os_mkdir os (full_path (getcwd os) (ao_root ao) path) mode h of
          Inl e \<Rightarrow> Inl e
        | Inr h' \<Rightarrow> Inr (0, ao, h'))
   \<and> ao_statfs os path (ao, h) =
       (if platform_system os = ''Windows'' then
          Inr (Some \<lparr>f_bavail = 1024, f_bfree = 1024, f_blocks = 1204, f_bsize = 4096,
                     f_favail = 1024, f_ffree = 1024, f_files = 1024, f_flag = 0,
                     f_frsize = 1024, f_namemax = 1024\<rparr>, ao, h)
        else if platform_system os = ''Linux'' then
          (case os_statvfs os (full_path (getcwd os) (ao_root ao) path) h of
             Inl e \<Rightarrow> Inl e
           | Inr stv \<Rightarrow> Inr (Some stv, ao, h))
        else Inr (None, ao, h))
   \<and> ao_unlink os path (ao, h) =
       (case os_unlink os (full_path (getcwd os) (ao_root ao) path) h of
          Inl e \<Rightarrow> Inl e
        | Inr h' \<Rightarrow> Inr (0, ao, h'))
   \<and> ao_symlink os path target (ao, h) =
       (case os_symlink os target (full_path (getcwd os) (ao_root ao) path) h of
          Inl e \<Rightarrow> Inl e
        | Inr h' \<Rightarrow> Inr (0, ao, h'))
   \<and> ao_rename os path path' (ao, h) =
       (case os_rename os (full_path (getcwd os) (ao_root ao) path)
               (full_path (getcwd os) (ao_root ao) path') h of
          Inl e \<Rightarrow> Inl e
        | Inr h' \<Rightarrow> Inr (0, ao, h'))
   \<and> ao_link os path' path (ao, h) =
       (case os_link os (full_path (getcwd os) (ao_root ao) path)
               (full_path (getcwd os) (ao_root ao) path') h of
          Inl e \<Rightarrow> Inl e
        | Inr h' \<Rightarrow> Inr (0, ao, h'))
   \<and> ao_utimens os path ts (ao, h) =
       (case os_utime os (full_path (getcwd os) (ao_root ao) path) ts h of
          Inl e \<Rightarrow> Inl e
        | Inr h' \<Rightarrow> Inr (0, ao, h'))
   \<and> ao_create os path mode (ao, h) =
       (case os_open_mode os (full_path (getcwd os) (ao_root ao) path) 65 mode h of
          Inl e \<Rightarrow> Inl e
        | Inr (fd, h1) \<Rightarrow>
            (case os_chown os (full_path (getcwd os) (ao_root ao) path)
                    (fst (fuse_get_context os h)) (fst (snd (fuse_get_context os h))) h1 of
               Inl e \<Rightarrow> Inl e
             | Inr h2 \<Rightarrow> Inr (fd, ao, h2)))
   \<and> ao_releasedir os path fh (ao, h) = Inr (0, ao, h)
   \<and> ao_close os path fh (ao, h) = Inr (0, ao, h)
   \<and> ao_fsync os path fdatasync fh (ao, h) =
       (case inherited_flush os path fh h of
          Inl e \<Rightarrow> Inl e
        | Inr (r, h') \<Rightarrow> Inr (r, ao, h'))"
proof (intro conjI impI)
  show "full_path cwd rootdir partial =
       normpath
         (let joined = posix_join rootdir (if prefix ''/'' partial then drop 1 partial else partial)
          in if prefix ''/'' joined then joined else posix_join cwd joined)"
    by (simp add: full_path_def abspath_def Let_def)
next
  assume "prefix ''/'' cwd \<and> \<not> prefix ''//'' partial \<and> ''..'' \<notin> set (split_slash partial)"
  then show "path_within (abspath cwd rootdir) (full_path cwd rootdir partial)"
    by (intro full_path_within) simp_all
next
  show "ao_readlink os path (ao, h) =
       (case os_readlink os (full_path (getcwd os) (ao_root ao) path) h of
          Inl e \<Rightarrow> Inl e
        | Inr pathname \<Rightarrow>
            Inr (if prefix ''/'' pathname then relpath (getcwd os) pathname (ao_root ao)
                 else pathname, ao, h))"
    by (simp add: ao_readlink_def split: sum.splits)
next
  show "ao_create os path mode (ao, h) =
       (case os_open_mode os (full_path (getcwd os) (ao_root ao) path) 65 mode h of
          Inl e \<Rightarrow> Inl e
        | Inr (fd, h1) \<Rightarrow>
            (case os_chown os (full_path (getcwd os) (ao_root ao) path)
                    (fst (fuse_get_context os h)) (fst (snd (fuse_get_context os h))) h1 of
               Inl e \<Rightarrow> Inl e
             | Inr h2 \<Rightarrow> Inr (fd, ao, h2)))"
    by (cases "fuse_get_context os h")
      (simp add: ao_create_def O_WRONLY_CREAT_def split: sum.splits)
qed (simp_all add: ao_getattr_def ao_open_def ao_read_def ao_flush_def ao_release_def
      ao_write_def ao_truncate_def ao_access_def ao_chmod_def ao_chown_def ao_readdir_def
      ao_mknod_def ao_rmdir_def ao_mkdir_def ao_statfs_def windows_statfs_def ao_unlink_def
      ao_symlink_def ao_rename_def ao_link_def ao_utimens_def ao_releasedir_def ao_close_def
      ao_fsync_def split: sum.splits)

theorem passthrough_resolution_witness:
  "dds_match ''/dsftest/+00-051.dsf'' = None
   \<and> prefix ''/'' ''/home/u''
   \<and> \<not> prefix ''//'' ''/dsftest/+00-051.dsf''
   \<and> ''..'' \<notin> set (split_slash ''/dsftest/+00-051.dsf'')
   \<and> full_path ''/home/u'' ''./testfiles'' ''/dsftest/+00-051.dsf''
       = ''/home/u/testfiles/dsftest/+00-051.dsf''
   \<and> abspath ''/home/u'' ''./testfiles'' = ''/home/u/testfiles''
   \<and> path_within (abspath ''/home/u'' ''./testfiles'')
        (full_path ''/home/u'' ''./testfiles'' ''/dsftest/+00-051.dsf'')
   \<and> ao_getattr empty_host (new_autoortho ''./testfiles'' ''.cache'' None)
        ''/dsftest/+00-051.dsf'' () = Inl ENOENT
   \<and> ao_read empty_host ''/dsftest/+00-051.dsf'' 128 0 3
        (new_autoortho ''./testfiles'' ''.cache'' None, ()) = Inl EBADF
   \<and> ao_release empty_host ''/dsftest/+00-051.dsf'' 3
        (new_autoortho ''./testfiles'' ''.cache'' None, ()) = Inl EBADF
   \<and> ao_unlink empty_host ''/dsftest/+00-051.dsf''
        (new_autoortho ''./testfiles'' ''.cache'' None, ()) = Inl ENOENT
   \<and> ao_readdir empty_host ''/dsftest/+00-051.dsf'' 0
        (new_autoortho ''./testfiles'' ''.cache'' None, ())
       = Inr ([''.'', ''..''], new_autoortho ''./testfiles'' ''.cache'' None, ())"
proof -
  have m: "dds_match ''/dsftest/+00-051.dsf'' = None"
    by (simp add: dds_match_def dds_re_def is_digit_def)
  have s: "''..'' \<notin> set (split_slash ''/dsftest/+00-051.dsf'')"
    by simp
  have f: "full_path ''/home/u'' ''./testfiles'' ''/dsftest/+00-051.dsf''
       = ''/home/u/testfiles/dsftest/+00-051.dsf''"
    by (simp add: full_path_def abspath_def posix_join_def normpath_def normpath_step_def Let_def)
  have a: "abspath ''/home/u'' ''./testfiles'' = ''/home/u/testfiles''"
    by (simp add: abspath_def posix_join_def normpath_def normpath_step_def Let_def)
  note t = passthrough_resolution [where path = "''/dsftest/+00-051.dsf''" and os = empty_host
      and ao = "new_autoortho ''./testfiles'' ''.cache'' None" and h = "()"
      and cwd = "''/home/u''" and rootdir = "''./testfiles''"
      and partial = "''/dsftest/+00-051.dsf''" and len = 128 and offset = 0 and fh = 3]
  have p1: "prefix ''/'' ''/home/u''" and p2: "\<not> prefix ''//'' ''/dsftest/+00-051.dsf''"
    by simp_all
  have w: "path_within (abspath ''/home/u'' ''./testfiles'')
        (full_path ''/home/u'' ''./testfiles'' ''/dsftest/+00-051.dsf'')"
    using t s p1 p2 by blast
  have g: "ao_getattr empty_host (new_autoortho ''./testfiles'' ''.cache'' None)
        ''/dsftest/+00-051.dsf'' () = Inl ENOENT"
  proof -
    from t m have "ao_getattr empty_host (new_autoortho ''./testfiles'' ''.cache'' None)
        ''/dsftest/+00-051.dsf'' () =
        (case os_lstat empty_host
                (full_path (getcwd empty_host)
                   (ao_root (new_autoortho ''./testfiles'' ''.cache'' None))
                   ''/dsftest/+00-051.dsf'') () of
           Inl e \<Rightarrow> Inl e
         | Inr st \<Rightarrow> Inr (st\<lparr>st_blksize := None\<rparr>))"
      by blast
    then show ?thesis by (simp add: empty_host_def)
  qed
  have r: "ao_read empty_host ''/dsftest/+00-051.dsf'' 128 0 3
        (new_autoortho ''./testfiles'' ''.cache'' None, ()) = Inl EBADF"
  proof -
    from t m have "ao_read empty_host ''/dsftest/+00-051.dsf'' 128 0 3
        (new_autoortho ''./testfiles'' ''.cache'' None, ()) =
          (case os_lseek empty_host 3 0 () of
             Inl e \<Rightarrow> Inl e
           | Inr h1 \<Rightarrow>
               (case os_read empty_host 3 128 h1 of
                  Inl e \<Rightarrow> Inl e
                | Inr (data, h2) \<Rightarrow>
                    Inr (data, new_autoortho ''./testfiles'' ''.cache'' None, h2)))"
      by blast
    then show ?thesis by (simp add: empty_host_def)
  qed
  have l: "ao_release empty_host ''/dsftest/+00-051.dsf'' 3
        (new_autoortho ''./testfiles'' ''.cache'' None, ()) = Inl EBADF"
  proof -
    from t m have "ao_release empty_host ''/dsftest/+00-051.dsf'' 3
        (new_autoortho ''./testfiles'' ''.cache'' None, ()) =
          (case os_close empty_host 3 () of
             Inl e \<Rightarrow> Inl e
           | Inr h' \<Rightarrow> Inr (0, new_autoortho ''./testfiles'' ''.cache'' None, h'))"
      by blast
    then show ?thesis by (simp add: empty_host_def)
  qed
  have u: "ao_unlink empty_host ''/dsftest/+00-051.dsf''
        (new_autoortho ''./testfiles'' ''.cache'' None, ()) = Inl ENOENT"
  proof -
    from t have "ao_unlink empty_host ''/dsftest/+00-051.dsf''
        (new_autoortho ''./testfiles'' ''.cache'' None, ()) =
       (case os_unlink empty_host
               (full_path (getcwd empty_host)
                  (ao_root (new_autoortho ''./testfiles'' ''.cache'' None))
                  ''/dsftest/+00-051.dsf'') () of
          Inl e \<Rightarrow> Inl e
        | Inr h' \<Rightarrow> Inr (0, new_autoortho ''./testfiles'' ''.cache'' None, h'))"
      by blast
    then show ?thesis by (simp add: empty_host_def)
  qed
  have d: "ao_readdir empty_host ''/dsftest/+00-051.dsf'' 0
        (new_autoortho ''./testfiles'' ''.cache'' None, ())
       = Inr ([''.'', ''..''], new_autoortho ''./testfiles'' ''.cache'' None, ())"
    by (simp add: ao_readdir_def empty_host_def)
  show ?thesis using m s p1 p2 f a w g r l u d by (intro conjI)
qed

end
